theory Spec2Isabelle
  imports Main
begin

section \<open>The level-1 grammar of the Hedy editor (src/unnamed/part_000)\<close>

text \<open>
  The source is a grammar file: a block of token rules (\<open>@tokens\<close>), two external
  keyword tokenizers over \<open>Text\<close> (\<open>@external specialize\<close>, \<open>@external extend\<close>), a
  \<open>@skip\<close> rule and the rules of the commands. Each token rule becomes a matcher on the
  remaining input, each grammar rule a parser built from the operators of the grammar
  notation (sequence, \<open>|\<close>, \<open>+\<close>, \<open>*\<close>, \<open>?\<close>), and \<open>@dynamicPrecedence\<close> a score
  on parse trees.

  Input text is a list of Unicode code points. The tokenizer reads the text as UTF-16:
  a pair of surrogates is the code point it encodes, and an unpaired surrogate
  (U+D800 to U+DFFF) stands in the list as itself.
\<close>

type_synonym codepoint = nat

definition ascii :: "string \<Rightarrow> codepoint list" where
  "ascii s = map of_char s"

subsection \<open>Character classes of the token block\<close>

text \<open>
  \<^verbatim>\<open>symbol { $[!%&()*+\-./:;<>=?@\[\]\\\^\{\}`~$_] }\<close>:
  the set, in the order written:
  ! % & ( ) * + - . / : ; < > = ? @ [ ] \ ^ { } ` ~ $ _
\<close>

definition symbol :: "codepoint \<Rightarrow> bool" where
  "symbol c \<longleftrightarrow> c \<in> set [0x21, 0x25, 0x26, 0x28, 0x29, 0x2A, 0x2B, 0x2D, 0x2E, 0x2F,
                        0x3A, 0x3B, 0x3C, 0x3E, 0x3D, 0x3F, 0x40, 0x5B, 0x5D, 0x5C,
                        0x5E, 0x7B, 0x7D, 0x60, 0x7E, 0x24, 0x5F]"

text \<open>The built-in classes \<open>@asciiLetter\<close> (A-Z, a-z) and \<open>@digit\<close> (0-9).\<close>

definition asciiLetter :: "codepoint \<Rightarrow> bool" where
  "asciiLetter c \<longleftrightarrow> (0x41 \<le> c \<and> c \<le> 0x5A) \<or> (0x61 \<le> c \<and> c \<le> 0x7A)"

definition digit :: "codepoint \<Rightarrow> bool" where
  "digit c \<longleftrightarrow> 0x30 \<le> c \<and> c \<le> 0x39"

text \<open>
  \<^verbatim>\<open>identifierChar { @asciiLetter | $[\u{0000a1}-\u{00060b}] | $[\u{00060d}-\u{003000}] |
                   $[\u{003002}-\u{00ff0b}] | $[\u{00ff0d}-\u{10ffff}] }\<close>

  A range of a character set holds the characters of text between its bounds. An
  unpaired surrogate is no character: the third range, which runs across U+D800 to
  U+DFFF, does not hold it, and the tokenizer built from the grammar has no token
  for it.
\<close>

definition surrogate :: "codepoint \<Rightarrow> bool" where
  "surrogate c \<longleftrightarrow> 0xD800 \<le> c \<and> c \<le> 0xDFFF"

definition identifierChar :: "codepoint \<Rightarrow> bool" where
  "identifierChar c \<longleftrightarrow>
     asciiLetter c \<or>
     \<not> surrogate c \<and>
       ((0xA1 \<le> c \<and> c \<le> 0x60B) \<or> (0x60D \<le> c \<and> c \<le> 0x3000) \<or>
        (0x3002 \<le> c \<and> c \<le> 0xFF0B) \<or> (0xFF0D \<le> c \<and> c \<le> 0x10FFFF))"

text \<open>The characters of \<^verbatim>\<open>Text { (identifierChar | symbol | @digit)+ }\<close>.\<close>

definition textChar :: "codepoint \<Rightarrow> bool" where
  "textChar c \<longleftrightarrow> identifierChar c \<or> symbol c \<or> digit c"

text \<open>
  The four literal tokens of the list separator,
  \<^verbatim>\<open>Op<',' | U+060C | U+FF0C | U+3001>\<close>, in the order written in \<open>AssignList\<close>.
\<close>

definition commas :: "codepoint list" where
  "commas = [0x2C, 0x60C, 0xFF0C, 0x3001]"

subsection \<open>Tokens\<close>

text \<open>
  The kinds of token: the five token rules, the comma literal, the keywords that the
  external tokenizers put in the place of a \<open>Text\<close> (named by their \<open>@name\<close>), and the
  error token \<open>Err\<close> that stands for a character at which no token rule matches.
\<close>

datatype kind = Text | String | Comment | newline | space | Comma | Keyword string | Err

datatype token = Token (kind: kind) (tstart: nat) (tend: nat) (raw: "codepoint list")

text \<open>
  Each token rule, as the length of its longest match at the head of the input
  (\<open>None\<close>: the rule does not match there).
\<close>

definition matchComment :: "codepoint list \<Rightarrow> nat option" where
  \<comment> \<open>\<^verbatim>\<open>Comment { "#" ![\n]* }\<close>\<close>
  "matchComment inp =
     (case inp of [] \<Rightarrow> None
      | c # rest \<Rightarrow> if c = 0x23 then Some (Suc (length (takeWhile (\<lambda>d. d \<noteq> 0x0A) rest)))
                    else None)"

definition matchNewline :: "codepoint list \<Rightarrow> nat option" where
  \<comment> \<open>\<^verbatim>\<open>newline { '\n' }\<close>\<close>
  "matchNewline inp = (case inp of [] \<Rightarrow> None | c # rest \<Rightarrow> if c = 0x0A then Some 1 else None)"

definition matchText :: "codepoint list \<Rightarrow> nat option" where
  \<comment> \<open>\<^verbatim>\<open>Text { (identifierChar | symbol | @digit)+ }\<close>\<close>
  "matchText inp =
     (let n = length (takeWhile textChar inp) in if n = 0 then None else Some n)"

definition matchSpace :: "codepoint list \<Rightarrow> nat option" where
  \<comment> \<open>\<^verbatim>\<open>space { " " }\<close>\<close>
  "matchSpace inp = (case inp of [] \<Rightarrow> None | c # rest \<Rightarrow> if c = 0x20 then Some 1 else None)"

definition matchQuoted :: "codepoint \<Rightarrow> codepoint list \<Rightarrow> nat option" where
  \<comment> \<open>one alternative of \<open>String\<close>: the quote \<open>q\<close>, any characters other than backslash,
      newline and \<open>q\<close>, then \<open>q\<close> again\<close>
  "matchQuoted q inp =
     (case inp of [] \<Rightarrow> None
      | c # rest \<Rightarrow>
          if c = q then
            (let body = takeWhile (\<lambda>d. d \<noteq> 0x5C \<and> d \<noteq> 0x0A \<and> d \<noteq> q) rest in
             case drop (length body) rest of
               [] \<Rightarrow> None
             | d # _ \<Rightarrow> if d = q then Some (length body + 2) else None)
          else None)"

definition matchString :: "codepoint list \<Rightarrow> nat option" where
  \<comment> \<open>\<^verbatim>\<open>String { '"' ( ![\\\n"] )* '"' | "'" ( ![\\\n'] )* "'" }\<close>\<close>
  "matchString inp =
     (case matchQuoted 0x22 inp of Some n \<Rightarrow> Some n | None \<Rightarrow> matchQuoted 0x27 inp)"

definition matchComma :: "codepoint list \<Rightarrow> nat option" where
  "matchComma inp = (case inp of [] \<Rightarrow> None | c # rest \<Rightarrow> if c \<in> set commas then Some 1 else None)"

text \<open>
  The tokenizer takes the token rule that matches at the current position. The rules,
  in the order of the token block, then the literals.
\<close>

definition tokenRules :: "(kind \<times> (codepoint list \<Rightarrow> nat option)) list" where
  "tokenRules = [(Comment, matchComment), (newline, matchNewline), (Text, matchText),
                 (space, matchSpace), (String, matchString), (Comma, matchComma)]"

fun firstMatch :: "(kind \<times> (codepoint list \<Rightarrow> nat option)) list \<Rightarrow> codepoint list
                    \<Rightarrow> (kind \<times> nat) option" where
  "firstMatch [] inp = None"
| "firstMatch ((k, m) # rules) inp =
     (case m inp of Some n \<Rightarrow> Some (k, n) | None \<Rightarrow> firstMatch rules inp)"

definition matchToken :: "codepoint list \<Rightarrow> (kind \<times> nat) option" where
  "matchToken inp = firstMatch tokenRules inp"

lemma matchQuoted_bounds: "matchQuoted q inp = Some n \<Longrightarrow> 0 < n \<and> n \<le> length inp"
proof (cases inp)
  case Nil
  assume "matchQuoted q inp = Some n"
  with Nil show ?thesis by (simp add: matchQuoted_def)
next
  case (Cons c rest)
  assume m: "matchQuoted q inp = Some n"
  define body where "body = takeWhile (\<lambda>d. d \<noteq> 0x5C \<and> d \<noteq> 0x0A \<and> d \<noteq> q) rest"
  from m Cons obtain d ds where d: "drop (length body) rest = d # ds" and n: "n = length body + 2"
    by (auto simp: matchQuoted_def Let_def body_def split: if_splits list.splits)
  from d have "length body < length rest"
    by (metis drop_all list.distinct(1) not_le)
  with n Cons show ?thesis by simp
qed

lemma firstMatch_tokenRules_bounds:
  assumes "matchToken inp = Some (k, n)"
  shows "0 < n \<and> n \<le> length inp"
proof -
  have len: "length (takeWhile P xs) \<le> length xs" for P and xs :: "codepoint list"
    by (rule length_takeWhile_le)
  from assms show ?thesis
    using len [of textChar inp]
    by (auto simp: matchToken_def tokenRules_def matchComment_def matchNewline_def
          matchText_def matchSpace_def matchString_def matchComma_def Let_def
          length_takeWhile_le
        split: option.splits list.splits if_splits dest: matchQuoted_bounds)
qed

text \<open>
  The token at the head of the remaining input: the one of the token rule that matches
  there. Where no token rule matches, the parser is given an error token that holds
  the one character at that position; it wraps the character in an error node and goes
  on behind it.
\<close>

definition nextToken :: "codepoint list \<Rightarrow> kind \<times> nat" where
  "nextToken inp = (case matchToken inp of Some kn \<Rightarrow> kn | None \<Rightarrow> (Err, 1))"

lemma nextToken_bounds:
  assumes "nextToken (c # cs) = (k, n)"
  shows "0 < n \<and> n \<le> length (c # cs)"
proof (cases "matchToken (c # cs)")
  case None with assms show ?thesis by (simp add: nextToken_def)
next
  case (Some kn)
  with assms have "matchToken (c # cs) = Some (k, n)" by (simp add: nextToken_def)
  then show ?thesis by (rule firstMatch_tokenRules_bounds)
qed

text \<open>The lexer: the tokens of the input from offset \<open>pos\<close> on.\<close>

function lexFrom :: "nat \<Rightarrow> codepoint list \<Rightarrow> token list" where
  "lexFrom pos [] = []"
| "lexFrom pos (c # cs) =
     (case nextToken (c # cs) of
        (k, n) \<Rightarrow> Token k pos (pos + n) (take n (c # cs)) # lexFrom (pos + n) (drop n (c # cs)))"
  by pat_completeness auto
termination
proof (relation "measure (\<lambda>(pos, inp). length inp)")
  show "wf (measure (\<lambda>(pos, inp). length inp))" by simp
next
  fix pos :: nat and c :: codepoint and cs :: "codepoint list" and x y
  assume "(x, y) = nextToken (c # cs)"
  then have "0 < y" using nextToken_bounds [of c cs x y] by simp
  then show "((pos + y, drop y (c # cs)), pos, c # cs) \<in> measure (\<lambda>(pos, inp). length inp)"
    by simp
qed

definition tokenize :: "codepoint list \<Rightarrow> token list" where
  "tokenize inp = lexFrom 0 inp"

text \<open>\<^verbatim>\<open>@skip { space | Comment }\<close>: the tokens the grammar sees.\<close>

definition skip :: "token list \<Rightarrow> token list" where
  "skip toks = filter (\<lambda>t. kind t \<noteq> space \<and> kind t \<noteq> Comment) toks"

subsection \<open>Keyword resolution\<close>

text \<open>
  The roles that the grammar declares for its two external tokenizers over \<open>Text\<close>,
  in the order of the declarations.
\<close>

definition specialized :: "string list" where
  \<comment> \<open>\<^verbatim>\<open>@external specialize { Text } specializeKeyword from "./tokens" { ask, at, random }\<close>\<close>
  "specialized = [''ask'', ''at'', ''random'']"

definition extended :: "string list" where
  \<comment> \<open>\<^verbatim>\<open>@external extend { Text } extendKeyword from "./tokens" { print, forward, turn, color,
      sleep, play, is, add, from, remove, to_list, clear }\<close>\<close>
  "extended = [''print'', ''forward'', ''turn'', ''color'', ''sleep'', ''play'', ''is'', ''add'',
               ''from'', ''remove'', ''to_list'', ''clear'']"

text \<open>
  Modelled from the spec: the keyword table of the active locale, which the tokenizers
  of \<open>./tokens\<close> (not among the sources) read. It maps a role name to the spellings
  recognised for that role.
\<close>

type_synonym keyword_table = "string \<Rightarrow> codepoint list list"

text \<open>
  Modelled from the spec: the external tokenizer \<open>specializeKeyword\<close> of \<open>./tokens\<close>
  (not among the sources). It looks the text of a \<open>Text\<close> token up in the keyword table
  among the specialised roles and gives the first role spelled so, if any. The look-up
  reads the text of the token alone, not the position of the token in its statement.
\<close>

definition specializeKeyword :: "keyword_table \<Rightarrow> codepoint list \<Rightarrow> string option" where
  "specializeKeyword kt s = find (\<lambda>r. s \<in> set (kt r)) specialized"

text \<open>
  Modelled from the spec: the external tokenizer \<open>extendKeyword\<close> of \<open>./tokens\<close> (not
  among the sources). It looks the text of a \<open>Text\<close> token up in the keyword table among
  the extended roles and gives the first role spelled so, if any.
\<close>

definition extendKeyword :: "keyword_table \<Rightarrow> codepoint list \<Rightarrow> string option" where
  "extendKeyword kt s = find (\<lambda>r. s \<in> set (kt r)) extended"

text \<open>
  Modelled from the spec: the English keyword table (the tables are not among the
  sources), in which every role is spelled by its own name.
\<close>

definition en :: keyword_table where
  "en r = (if r \<in> set (specialized @ extended) then [ascii r] else [])"

text \<open>
  \<open>@external specialize { Text }\<close> replaces the \<open>Text\<close> token by the keyword;
  \<open>@external extend { Text }\<close> lets the token be read as the keyword and as \<open>Text\<close>.
  A statement is read in each of the ways its tokens can be read.
\<close>

definition retag :: "kind \<Rightarrow> token \<Rightarrow> token" where
  "retag k t = Token k (tstart t) (tend t) (raw t)"

definition readings :: "keyword_table \<Rightarrow> token \<Rightarrow> token list" where
  "readings kt t =
     (if kind t = Text then
        (case specializeKeyword kt (raw t) of
           Some r \<Rightarrow> [retag (Keyword r) t]
         | None \<Rightarrow>
            (case extendKeyword kt (raw t) of
               Some r \<Rightarrow> [retag (Keyword r) t, t]
             | None \<Rightarrow> [t]))
      else [t])"

definition resolve :: "keyword_table \<Rightarrow> token list \<Rightarrow> token list list" where
  "resolve kt toks = product_lists (map (readings kt) toks)"

subsection \<open>Parse trees and the operators of the grammar notation\<close>

text \<open>
  A node of the tree has the name of its rule or token and the span of input it covers.
  Tokens without a name (the comma literals, \<open>newline\<close>) leave no node.
\<close>

datatype tree = Node (name: string) (nfrom: nat) (nto: nat) (children: "tree list")

fun nodeName :: "kind \<Rightarrow> string option" where
  "nodeName Text = Some ''Text''"
| "nodeName String = Some ''String''"
| "nodeName Comment = Some ''Comment''"
| "nodeName (Keyword r) = Some r"
| "nodeName newline = None"
| "nodeName space = None"
| "nodeName Comma = None"
| "nodeName Err = None"

definition leaf :: "token \<Rightarrow> tree list" where
  "leaf t = (case nodeName (kind t) of
               Some n \<Rightarrow> [Node n (tstart t) (tend t) []]
             | None \<Rightarrow> [])"

text \<open>
  A parser maps the remaining tokens to every way of matching a prefix of them: the
  nodes built and the tokens left.
\<close>

type_synonym parser = "token list \<Rightarrow> (tree list \<times> token list) list"

definition tk :: "kind \<Rightarrow> parser" where
  "tk k inp = (case inp of [] \<Rightarrow> [] | t # rest \<Rightarrow> if kind t = k then [(leaf t, rest)] else [])"

definition seq :: "parser \<Rightarrow> parser \<Rightarrow> parser" where
  "seq p q inp =
     concat (map (\<lambda>(ts, rest). map (\<lambda>(ts', rest'). (ts @ ts', rest')) (q rest)) (p inp))"

definition alt :: "parser \<Rightarrow> parser \<Rightarrow> parser" where
  "alt p q inp = p inp @ q inp"

definition opt :: "parser \<Rightarrow> parser" where
  "opt p inp = p inp @ [([], inp)]"

text \<open>
  \<open>p+\<close>: one or more matches of \<open>p\<close>. Each match takes at least one token, so there
  are at most as many as there are tokens left: with that bound \<open>rep1 p\<close> finds every
  run of matches of \<open>p\<close> (lemma \<open>lang_rep1\<close>).
\<close>

fun rep :: "nat \<Rightarrow> parser \<Rightarrow> parser" where
  "rep 0 p inp = []"
| "rep (Suc n) p inp =
     concat (map (\<lambda>(ts, rest). (ts, rest) # map (\<lambda>(ts', rest'). (ts @ ts', rest')) (rep n p rest))
                 (p inp))"

definition rep1 :: "parser \<Rightarrow> parser" where
  "rep1 p inp = rep (length inp) p inp"

definition rep0 :: "parser \<Rightarrow> parser" where
  "rep0 p inp = rep1 p inp @ [([], inp)]"

text \<open>
  A rule with a capitalised name wraps what its body matched in a node that spans the
  tokens taken.
\<close>

definition spanFrom :: "token list \<Rightarrow> nat" where
  "spanFrom inp = (case inp of [] \<Rightarrow> 0 | t # _ \<Rightarrow> tstart t)"

definition spanTo :: "token list \<Rightarrow> token list \<Rightarrow> nat" where
  "spanTo inp rest =
     (case take (length inp - length rest) inp of
        [] \<Rightarrow> spanFrom inp
      | t # ts \<Rightarrow> tend (last (t # ts)))"

definition node :: "string \<Rightarrow> parser \<Rightarrow> parser" where
  "node n p inp =
     map (\<lambda>(ts, rest). ([Node n (spanFrom inp) (spanTo inp rest) ts], rest)) (p inp)"

subsection \<open>The rules of the grammar\<close>

definition kw :: "string \<Rightarrow> parser" where
  "kw r = tk (Keyword r)"

text \<open>\<^verbatim>\<open>Op<expr> { expr }\<close>, used as \<^verbatim>\<open>Op<',' | U+060C | U+FF0C | U+3001>\<close>.\<close>

definition Op :: "parser \<Rightarrow> parser" where
  "Op expr = node ''Op'' expr"

text \<open>\<^verbatim>\<open>ListAccess { Text at+ (random+ | Text) }\<close>\<close>

definition ListAccess :: parser where
  "ListAccess =
     node ''ListAccess'' (seq (tk Text) (seq (rep1 (kw ''at'')) (alt (rep1 (kw ''random'')) (tk Text))))"

text \<open>\<^verbatim>\<open>Print { print+ ( String | Text | ListAccess )+ }\<close>\<close>

definition Print :: parser where
  "Print =
     node ''Print'' (seq (rep1 (kw ''print'')) (rep1 (alt (tk String) (alt (tk Text) ListAccess))))"

text \<open>\<^verbatim>\<open>Ask { Text is+ ask+ ( String | Text | ListAccess )+ }\<close>\<close>

definition Ask :: parser where
  "Ask =
     node ''Ask'' (seq (tk Text) (seq (rep1 (kw ''is'')) (seq (rep1 (kw ''ask''))
       (rep1 (alt (tk String) (alt (tk Text) ListAccess))))))"

text \<open>\<^verbatim>\<open>AssignList { Text is+ Text+ (Op<',' | U+060C | U+FF0C | U+3001> Text+)+ }\<close>\<close>

definition AssignList :: parser where
  "AssignList =
     node ''AssignList'' (seq (tk Text) (seq (rep1 (kw ''is'')) (seq (rep1 (tk Text))
       (rep1 (seq (Op (tk Comma)) (rep1 (tk Text)))))))"

text \<open>\<^verbatim>\<open>Assign { Text is+ (Text+ | ListAccess) }\<close>\<close>

definition Assign :: parser where
  "Assign =
     node ''Assign'' (seq (tk Text) (seq (rep1 (kw ''is'')) (alt (rep1 (tk Text)) ListAccess)))"

text \<open>\<^verbatim>\<open>Sleep { sleep+ (Text | ListAccess)? }\<close>\<close>

definition Sleep :: parser where
  "Sleep = node ''Sleep'' (seq (rep1 (kw ''sleep'')) (opt (alt (tk Text) ListAccess)))"

text \<open>\<^verbatim>\<open>Add { add+ Text+ to_list+ Text }\<close>\<close>

definition Add :: parser where
  "Add =
     node ''Add'' (seq (rep1 (kw ''add'')) (seq (rep1 (tk Text)) (seq (rep1 (kw ''to_list'')) (tk Text))))"

text \<open>\<^verbatim>\<open>Remove { remove+ Text+ from+ Text }\<close>\<close>

definition Remove :: parser where
  "Remove =
     node ''Remove'' (seq (rep1 (kw ''remove'')) (seq (rep1 (tk Text)) (seq (rep1 (kw ''from'')) (tk Text))))"

text \<open>\<^verbatim>\<open>Clear { clear+ }\<close>\<close>

definition Clear :: parser where
  "Clear = node ''Clear'' (rep1 (kw ''clear''))"

text \<open>\<^verbatim>\<open>Play { play+ (ListAccess | Text+) }\<close>\<close>

definition Play :: parser where
  "Play = node ''Play'' (seq (rep1 (kw ''play'')) (alt ListAccess (rep1 (tk Text))))"

text \<open>
  \<^verbatim>\<open>Turtle[@isGroup=turtle] {
      Forward { forward+ (Text | ListAccess ) } |
      Turn { turn+ (Text | ListAccess ) } |
      Color { color+ (Text | ListAccess)  } }\<close>
\<close>

definition Forward :: parser where
  "Forward = node ''Forward'' (seq (rep1 (kw ''forward'')) (alt (tk Text) ListAccess))"

definition Turn :: parser where
  "Turn = node ''Turn'' (seq (rep1 (kw ''turn'')) (alt (tk Text) ListAccess))"

definition Color :: parser where
  "Color = node ''Color'' (seq (rep1 (kw ''color'')) (alt (tk Text) ListAccess))"

definition Turtle :: parser where
  "Turtle = node ''Turtle'' (alt Forward (alt Turn Color))"

text \<open>\<^verbatim>\<open>ErrorInvalid[@dynamicPrecedence=-10] { Text+ }\<close>\<close>

definition ErrorInvalid :: parser where
  "ErrorInvalid = node ''ErrorInvalid'' (rep1 (tk Text))"

text \<open>
  \<^verbatim>\<open>Command { Assign | AssignList | Ask | Clear |Print | Play | Turtle | Sleep | Add |
            Remove | ErrorInvalid }\<close>
\<close>

definition Command :: parser where
  "Command =
     node ''Command'' (alt Assign (alt AssignList (alt Ask (alt Clear (alt Print (alt Play
       (alt Turtle (alt Sleep (alt Add (alt Remove ErrorInvalid))))))))))"

text \<open>\<^verbatim>\<open>@top Program { newline* (Command newline+)* Command? }\<close>\<close>

definition Program :: parser where
  "Program =
     node ''Program'' (seq (rep0 (tk newline)) (seq (rep0 (seq Command (rep1 (tk newline))))
       (opt Command)))"

subsection \<open>Choosing among the parses\<close>

text \<open>
  The matches of a rule that take every token, each a single node.
\<close>

definition complete :: "parser \<Rightarrow> token list \<Rightarrow> tree list" where
  "complete p inp = concat (map fst (filter (\<lambda>(ts, rest). rest = []) (p inp)))"

text \<open>
  \<open>@dynamicPrecedence\<close>: a parse is scored by the sum of the dynamic precedences of the
  rules it uses, and of the parses of one input those of the highest score are kept.
  Only \<open>ErrorInvalid\<close> carries one.
\<close>

definition dynamicPrecedence :: "string \<Rightarrow> int" where
  "dynamicPrecedence n = (if n = ''ErrorInvalid'' then - 10 else 0)"

fun score :: "tree \<Rightarrow> int" where
  "score (Node n a b ts) = dynamicPrecedence n + sum_list (map score ts)"

definition best :: "tree list \<Rightarrow> tree list" where
  "best ds = filter (\<lambda>d. \<forall>d' \<in> set ds. score d' \<le> score d) ds"

definition derivations :: "parser \<Rightarrow> keyword_table \<Rightarrow> token list \<Rightarrow> tree list" where
  "derivations p kt toks = concat (map (complete p) (resolve kt toks))"

text \<open>The parses of one statement, given as the tokens the grammar sees.\<close>

definition parseCommand :: "keyword_table \<Rightarrow> token list \<Rightarrow> tree list" where
  "parseCommand kt toks = best (derivations Command kt toks)"

text \<open>
  The parses of a source text: lexing, skipping, keyword resolution, then the top rule
  on all the tokens. These are the trees that the rules of the grammar derive. A text
  that the rules do not derive (the list is empty) is left to the error recovery of
  the parsing framework, which repairs it with error nodes and is not part of the
  grammar; the trees here hold no error node, and none of the \<open>Comment\<close> nodes that the
  parser hangs into the tree for the comments it skips.
\<close>

definition parseProgram :: "keyword_table \<Rightarrow> codepoint list \<Rightarrow> tree list" where
  "parseProgram kt src = best (derivations Program kt (skip (tokenize src)))"

text \<open>The shape of a command: the name of the node under \<open>Command\<close>.\<close>

definition tag :: "tree \<Rightarrow> string" where
  "tag d = (case children d of [c] \<Rightarrow> name c | _ \<Rightarrow> [])"

subsection \<open>Properties of token sequences\<close>

text \<open>
  The tokens tile the input from offset \<open>pos\<close> on: each starts where the one before it
  ends, is not empty, and holds the characters of its span.
\<close>

fun covers :: "nat \<Rightarrow> token list \<Rightarrow> codepoint list \<Rightarrow> bool" where
  "covers pos [] inp = (inp = [])"
| "covers pos (t # ts) inp =
     (tstart t = pos \<and> tend t = pos + length (raw t) \<and> raw t \<noteq> [] \<and>
      raw t = take (length (raw t)) inp \<and> covers (tend t) ts (drop (length (raw t)) inp))"


text \<open>
  Two neighbouring tokens: a \<open>Text\<close> token is not followed by a \<open>Text\<close> character, and
  no \<open>Text\<close> character comes right before a \<open>Text\<close> token.
\<close>

definition maximalText :: "token \<Rightarrow> token \<Rightarrow> bool" where
  "maximalText s t \<longleftrightarrow>
     \<not> (kind s = Text \<and> textChar (hd (raw t))) \<and> \<not> (kind t = Text \<and> textChar (last (raw s)))"


text \<open>
  The table maps the role \<open>r\<close> to the spelling \<open>w\<close>: a word of \<open>Text\<close> characters
  that the table gives to \<open>r\<close> and to no other role.
\<close>

definition spells :: "keyword_table \<Rightarrow> string \<Rightarrow> codepoint list \<Rightarrow> bool" where
  "spells kt r w \<longleftrightarrow>
     w \<in> set (kt r) \<and> w \<noteq> [] \<and> (\<forall>c \<in> set w. textChar c) \<and>
     (\<forall>r' \<in> set (specialized @ extended). r' \<noteq> r \<longrightarrow> w \<notin> set (kt r'))"

text \<open>The command shapes other than the fallback \<open>ErrorInvalid\<close>.\<close>

definition named :: "string list" where
  "named = [''Assign'', ''AssignList'', ''Ask'', ''Clear'', ''Print'', ''Play'', ''Turtle'',
            ''Sleep'', ''Add'', ''Remove'']"


text \<open>Every tree a parser builds has score 0.\<close>

definition zero_scored :: "parser \<Rightarrow> bool" where
  "zero_scored p \<longleftrightarrow> (\<forall>inp ts r. (ts, r) \<in> set (p inp) \<longrightarrow> (\<forall>t \<in> set ts. score t = 0))"


text \<open>
  The tokens a parser matches: \<open>lang p w\<close> when \<open>p\<close> matches exactly \<open>w\<close> whatever
  follows; a parser is stable when each of its matches is of that kind, consuming when
  it matches no empty run, and pumps when after a keyword token of a run it matches, a
  further token of the same keyword may be put in.
\<close>

definition lang :: "parser \<Rightarrow> token list \<Rightarrow> bool" where
  "lang p w \<longleftrightarrow> (\<forall>r. \<exists>ts. (ts, r) \<in> set (p (w @ r)))"

definition stable :: "parser \<Rightarrow> bool" where
  "stable p \<longleftrightarrow> (\<forall>inp ts r. (ts, r) \<in> set (p inp) \<longrightarrow> (\<exists>w. inp = w @ r \<and> lang p w))"

definition pumps :: "parser \<Rightarrow> bool" where
  "pumps p \<longleftrightarrow>
     (\<forall>pre k k' post r. lang p (pre @ k # post) \<and> kind k = Keyword r \<and> kind k' = Keyword r \<longrightarrow>
        lang p (pre @ k # k' # post))"

definition consuming :: "parser \<Rightarrow> bool" where
  "consuming p \<longleftrightarrow> (\<forall>w. lang p w \<longrightarrow> w \<noteq> [])"


definition good :: "parser \<Rightarrow> bool" where
  "good p \<longleftrightarrow> stable p \<and> pumps p"


section \<open>The lexer\<close>

lemma textChar_not_special:
  assumes "textChar c"
  shows "c \<noteq> 0x23" "c \<noteq> 0x0A" "c \<noteq> 0x20" "c \<noteq> 0x22" "c \<noteq> 0x27" "c \<notin> set commas"
  using assms
  unfolding textChar_def identifierChar_def asciiLetter_def surrogate_def symbol_def digit_def commas_def
  by auto

lemma comma_codes: "c \<in> set commas \<Longrightarrow> c \<noteq> 0x23 \<and> c \<noteq> 0x0A \<and> c \<noteq> 0x20 \<and> c \<noteq> 0x22 \<and> c \<noteq> 0x27"
  by (auto simp: commas_def)

lemma matchToken_Cons:
  "matchToken (c # cs) =
     (if c = 0x23 then Some (Comment, Suc (length (takeWhile (\<lambda>d. d \<noteq> 0x0A) cs)))
      else if c = 0x0A then Some (newline, 1)
      else if textChar c then Some (Text, Suc (length (takeWhile textChar cs)))
      else if c = 0x20 then Some (space, 1)
      else if c = 0x22 \<or> c = 0x27 then
        (case matchQuoted c (c # cs) of None \<Rightarrow> None | Some n \<Rightarrow> Some (String, n))
      else if c \<in> set commas then Some (Comma, 1)
      else None)"
proof -
  have q: "d \<noteq> e \<Longrightarrow> matchQuoted d (e # cs) = None" for d e
    by (simp add: matchQuoted_def)
  have s: "matchString (c # cs) = (if c = 0x22 \<or> c = 0x27 then matchQuoted c (c # cs) else None)"
  proof (cases "c = 0x22")
    case True
    have "matchQuoted 0x27 (0x22 # cs) = None" by (rule q) simp
    with True show ?thesis by (simp add: matchString_def split: option.splits)
  next
    case False
    then have "matchQuoted 0x22 (c # cs) = None" by (intro q) simp
    moreover have "c \<noteq> 0x27 \<Longrightarrow> matchQuoted 0x27 (c # cs) = None" by (intro q) simp
    ultimately show ?thesis using False by (simp add: matchString_def)
  qed
  have t: "matchText (c # cs) = (if textChar c then Some (Suc (length (takeWhile textChar cs))) else None)"
    by (simp add: matchText_def)
  have m: "matchToken (c # cs) =
    (if c = 0x23 then Some (Comment, Suc (length (takeWhile (\<lambda>d. d \<noteq> 0x0A) cs)))
     else if c = 0x0A then Some (newline, 1)
     else if textChar c then Some (Text, Suc (length (takeWhile textChar cs)))
     else if c = 0x20 then Some (space, 1)
     else case matchString (c # cs) of Some n \<Rightarrow> Some (String, n)
          | None \<Rightarrow> if c \<in> set commas then Some (Comma, 1) else None)"
    by (simp add: matchToken_def tokenRules_def matchComment_def matchNewline_def t
        matchSpace_def matchComma_def split: option.splits)
  have c: "c \<in> set commas \<Longrightarrow> c \<noteq> 0x22 \<and> c \<noteq> 0x27" by (auto simp: commas_def)
  show ?thesis unfolding m s using c
    by (simp split: option.splits)
qed

lemma matchToken_Nil: "matchToken [] = None"
  by (simp add: matchToken_def tokenRules_def matchComment_def
      matchNewline_def matchText_def matchSpace_def matchString_def matchQuoted_def matchComma_def)

lemma matchToken_kind:
  assumes "matchToken sfx = Some (k, n)"
  shows "k = Comment \<or> k = newline \<or> k = Text \<or> k = space \<or> k = String \<or> k = Comma"
  using assms
  by (cases sfx) (auto simp: matchToken_Cons matchToken_def tokenRules_def matchComment_def
      matchNewline_def matchText_def matchSpace_def matchString_def matchQuoted_def matchComma_def
      split: if_splits option.splits)

lemma matchToken_None:
  assumes "matchToken (c # cs) = None"
  shows "\<not> textChar c \<and> c \<noteq> 0x23 \<and> c \<noteq> 0x0A \<and> c \<noteq> 0x20 \<and> c \<notin> set commas"
  using assms comma_codes [of c] by (auto simp: matchToken_Cons split: if_splits)

lemma nextToken_Some: "matchToken inp = Some (k, n) \<Longrightarrow> nextToken inp = (k, n)"
  by (simp add: nextToken_def)

lemma nextToken_None: "matchToken inp = None \<Longrightarrow> nextToken inp = (Err, 1)"
  by (simp add: nextToken_def)

lemma nextToken_cases:
  assumes "nextToken inp = (k, n)"
  obtains (tok) "k \<noteq> Err" "matchToken inp = Some (k, n)"
        | (err) "k = Err" "n = 1" "matchToken inp = None"
proof (cases "matchToken inp")
  case None
  with assms have k: "k = Err" and n: "n = 1" by (simp_all add: nextToken_def)
  from k n None show ?thesis by (rule err)
next
  case (Some kn)
  with assms have m: "matchToken inp = Some (k, n)" by (simp add: nextToken_def)
  from matchToken_kind [OF m] have "k \<noteq> Err" by auto
  then show ?thesis using m by (rule tok)
qed

lemma nextToken_length:
  assumes "inp \<noteq> []" and "nextToken inp = (k, n)"
  shows "0 < n \<and> n \<le> length inp"
  using assms nextToken_bounds [of "hd inp" "tl inp" k n] by simp

lemma lexFrom_Cons:
  assumes "inp \<noteq> []" and "nextToken inp = (k, n)"
  shows "lexFrom pos inp = Token k pos (pos + n) (take n inp) # lexFrom (pos + n) (drop n inp)"
  using assms by (cases inp) simp_all

lemma lexFrom_induct2:
  assumes "\<And>pos inp. (\<And>k n. inp \<noteq> [] \<Longrightarrow> nextToken inp = (k, n) \<Longrightarrow> P (pos + n) (drop n inp))
             \<Longrightarrow> P pos inp"
  shows "P pos inp"
proof (induction pos inp rule: lexFrom.induct)
  case (1 pos) show ?case by (rule assms) simp
next
  case (2 pos c cs)
  show ?case
  proof (rule assms)
    fix k n assume "nextToken (c # cs) = (k, n)"
    then show "P (pos + n) (drop n (c # cs))" using "2.IH" [of k n] by simp
  qed
qed

lemma lexFrom_all:
  assumes step: "\<And>sfx k n p. sfx \<noteq> [] \<Longrightarrow> nextToken sfx = (k, n) \<Longrightarrow>
      P (Token k p (p + n) (take n sfx))"
  shows "t \<in> set (lexFrom pos inp) \<Longrightarrow> P t"
proof (induction pos inp rule: lexFrom_induct2)
  case (1 pos inp)
  show ?case
  proof (cases inp)
    case Nil with "1.prems" show ?thesis by simp
  next
    case (Cons c cs)
    then have ne: "inp \<noteq> []" by simp
    obtain k n where m: "nextToken inp = (k, n)" by (cases "nextToken inp")
    from "1.prems" lexFrom_Cons [OF ne m, of pos]
    consider "t = Token k pos (pos + n) (take n inp)" | "t \<in> set (lexFrom (pos + n) (drop n inp))"
      by auto
    then show ?thesis
    proof cases
      case 1 then show ?thesis using step [OF ne m] by simp
    next
      case 2 then show ?thesis using "1.IH" [OF ne m] by simp
    qed
  qed
qed

lemma lexFrom_successively:
  assumes step: "\<And>sfx k n k' n' p p'. sfx \<noteq> [] \<Longrightarrow> nextToken sfx = (k, n) \<Longrightarrow>
      drop n sfx \<noteq> [] \<Longrightarrow> nextToken (drop n sfx) = (k', n') \<Longrightarrow>
      P (Token k p (p + n) (take n sfx)) (Token k' p' (p' + n') (take n' (drop n sfx)))"
  shows "successively P (lexFrom pos inp)"
proof (induction pos inp rule: lexFrom_induct2)
  case (1 pos inp)
  show ?case
  proof (cases inp)
    case Nil then show ?thesis by simp
  next
    case (Cons c cs)
    then have ne: "inp \<noteq> []" by simp
    obtain k n where m: "nextToken inp = (k, n)" by (cases "nextToken inp")
    note l = lexFrom_Cons [OF ne m, of pos]
    have tl: "successively P (lexFrom (pos + n) (drop n inp))" using "1.IH" [OF ne m] .
    show ?thesis
    proof (cases "drop n inp")
      case Nil with l show ?thesis by simp
    next
      case (Cons d ds)
      then have ne': "drop n inp \<noteq> []" by simp
      obtain k' n' where m': "nextToken (drop n inp) = (k', n')" by (cases "nextToken (drop n inp)")
      note l' = lexFrom_Cons [OF ne' m', of "pos + n"]
      from step [OF ne m ne' m', of pos "pos + n"] tl l l' show ?thesis by simp
    qed
  qed
qed

lemma lexFrom_covers: "covers pos (lexFrom pos inp) inp"
proof (induction pos inp rule: lexFrom_induct2)
  case (1 pos inp)
  show ?case
  proof (cases inp)
    case Nil then show ?thesis by simp
  next
    case (Cons c cs)
    then have ne: "inp \<noteq> []" by simp
    obtain k n where m: "nextToken inp = (k, n)" by (cases "nextToken inp")
    from nextToken_length [OF ne m] have n: "0 < n" "n \<le> length inp" by auto
    then have len: "length (take n inp) = n" by simp
    from "1.IH" [OF ne m] have "covers (pos + n) (lexFrom (pos + n) (drop n inp)) (drop n inp)" .
    with n ne len show ?thesis unfolding lexFrom_Cons [OF ne m, of pos] by auto
  qed
qed

lemma lexFrom_at:
  "t \<in> set (lexFrom pos inp) \<Longrightarrow>
     pos \<le> tstart t \<and> tstart t < pos + length inp \<and>
     nextToken (drop (tstart t - pos) inp) = (kind t, length (raw t))"
proof (induction pos inp rule: lexFrom_induct2)
  case (1 pos inp)
  show ?case
  proof (cases inp)
    case Nil with "1.prems" show ?thesis by simp
  next
    case (Cons c cs)
    then have ne: "inp \<noteq> []" by simp
    obtain k n where m: "nextToken inp = (k, n)" by (cases "nextToken inp")
    from nextToken_length [OF ne m] have n: "0 < n" "n \<le> length inp" by auto
    from "1.prems" lexFrom_Cons [OF ne m, of pos]
    consider "t = Token k pos (pos + n) (take n inp)" | "t \<in> set (lexFrom (pos + n) (drop n inp))"
      by auto
    then show ?thesis
    proof cases
      case 1 with m n ne show ?thesis by simp
    next
      case 2
      from "1.IH" [OF ne m 2]
      have ih: "pos + n \<le> tstart t" "tstart t < pos + n + length (drop n inp)"
        "nextToken (drop (tstart t - (pos + n)) (drop n inp)) = (kind t, length (raw t))" by auto
      have "tstart t - (pos + n) + n = tstart t - pos" using ih(1) by simp
      with ih n show ?thesis by auto
    qed
  qed
qed

lemma matchQuoted_iff:
  "matchQuoted q (c # cs) = Some n \<longleftrightarrow>
     c = q \<and> (\<exists>body rest. cs = body @ q # rest \<and>
        (\<forall>d \<in> set body. d \<noteq> 0x5C \<and> d \<noteq> 0x0A \<and> d \<noteq> q) \<and> n = length body + 2)"
proof -
  let ?P = "\<lambda>d. d \<noteq> 0x5C \<and> d \<noteq> 0x0A \<and> d \<noteq> q"
  have split: "cs = takeWhile ?P cs @ drop (length (takeWhile ?P cs)) cs"
    by (simp add: dropWhile_eq_drop [symmetric])
  show ?thesis
  proof
    assume m: "matchQuoted q (c # cs) = Some n"
    then have cq: "c = q" by (simp add: matchQuoted_def split: if_splits)
    from m cq obtain rest where d: "drop (length (takeWhile ?P cs)) cs = q # rest"
      and n: "n = length (takeWhile ?P cs) + 2"
      by (auto simp: matchQuoted_def Let_def split: list.splits if_splits)
    have "cs = takeWhile ?P cs @ q # rest" using split d by simp
    moreover have "\<forall>d \<in> set (takeWhile ?P cs). ?P d" by (auto dest: set_takeWhileD)
    ultimately show "c = q \<and> (\<exists>body rest. cs = body @ q # rest \<and>
        (\<forall>d \<in> set body. ?P d) \<and> n = length body + 2)" using cq n by blast
  next
    assume "c = q \<and> (\<exists>body rest. cs = body @ q # rest \<and>
        (\<forall>d \<in> set body. ?P d) \<and> n = length body + 2)"
    then obtain body rest where cq: "c = q" and cs: "cs = body @ q # rest"
      and b: "\<forall>d \<in> set body. ?P d" and n: "n = length body + 2" by blast
    have tw: "takeWhile ?P cs = body" unfolding cs using b by (simp add: takeWhile_append2)
    then have "drop (length (takeWhile ?P cs)) cs = q # rest" using cs by simp
    with tw cq n show "matchQuoted q (c # cs) = Some n" by (simp add: matchQuoted_def Let_def)
  qed
qed

lemma matchToken_String:
  assumes "matchToken sfx = Some (String, n)"
  shows "\<exists>q body. (q = 0x22 \<or> q = 0x27) \<and> take n sfx = q # body @ [q] \<and>
           (\<forall>d \<in> set body. d \<noteq> 0x5C \<and> d \<noteq> 0x0A \<and> d \<noteq> q)"
proof (cases sfx)
  case Nil with assms show ?thesis by (simp add: matchToken_def tokenRules_def matchComment_def
      matchNewline_def matchText_def matchSpace_def matchString_def matchQuoted_def matchComma_def)
next
  case (Cons c cs)
  with assms have q: "c = 0x22 \<or> c = 0x27" and m: "matchQuoted c (c # cs) = Some n"
    by (auto simp: matchToken_Cons split: if_splits option.splits)
  from m obtain body rest where cs: "cs = body @ c # rest"
    and b: "\<forall>d \<in> set body. d \<noteq> 0x5C \<and> d \<noteq> 0x0A \<and> d \<noteq> c" and n: "n = length body + 2"
    unfolding matchQuoted_iff by blast
  have "take n sfx = c # body @ [c]" using Cons cs n by simp
  with q b show ?thesis by blast
qed

lemma matchToken_Text:
  assumes "matchToken sfx = Some (Text, n)"
  shows "take n sfx = takeWhile textChar sfx \<and> drop n sfx = dropWhile textChar sfx \<and> 0 < n"
proof (cases sfx)
  case Nil with assms show ?thesis by (simp add: matchToken_def tokenRules_def matchComment_def
      matchNewline_def matchText_def matchSpace_def matchString_def matchQuoted_def matchComma_def)
next
  case (Cons c cs)
  with assms have n: "n = length (takeWhile textChar sfx)" and c: "textChar c"
    by (auto simp: matchToken_Cons split: if_splits option.splits)
  show ?thesis unfolding n using c Cons
    by (simp add: takeWhile_eq_take [symmetric] dropWhile_eq_drop [symmetric])
qed

lemma matchToken_single:
  assumes "matchToken sfx = Some (k, n)" and "k = newline \<or> k = space \<or> k = Comma"
  shows "n = 1 \<and> (\<exists>c. take n sfx = [c] \<and> \<not> textChar c \<and> \<not> symbol c \<and>
           (c \<in> set commas \<longrightarrow> k = Comma))"
proof (cases sfx)
  case Nil with assms show ?thesis by (simp add: matchToken_def tokenRules_def matchComment_def
      matchNewline_def matchText_def matchSpace_def matchString_def matchQuoted_def matchComma_def)
next
  case (Cons c cs)
  from assms Cons have n: "n = 1" and c: "\<not> textChar c" and k: "c \<in> set commas \<longrightarrow> k = Comma"
    by (auto simp: matchToken_Cons split: if_splits option.splits
        dest: textChar_not_special comma_codes)
  from c have "\<not> symbol c" by (simp add: textChar_def)
  with n c k Cons show ?thesis by simp
qed

lemma matchToken_Comment:
  assumes "matchToken sfx = Some (Comment, n)"
  shows "drop n sfx = dropWhile (\<lambda>d. d \<noteq> 0x0A) (tl sfx)"
proof (cases sfx)
  case Nil with assms show ?thesis by (simp add: matchToken_def tokenRules_def matchComment_def
      matchNewline_def matchText_def matchSpace_def matchString_def matchQuoted_def matchComma_def)
next
  case (Cons c cs)
  with assms have n: "n = Suc (length (takeWhile (\<lambda>d. d \<noteq> 0x0A) cs))"
    by (auto simp: matchToken_Cons split: if_splits option.splits)
  show ?thesis unfolding n using Cons by (simp add: dropWhile_eq_drop [symmetric])
qed

lemma matchToken_hd_Text:
  assumes "matchToken sfx = Some (Text, n)"
  shows "sfx \<noteq> [] \<and> textChar (hd sfx) \<and> hd (take n sfx) = hd sfx"
  using assms
  by (cases sfx) (auto simp: matchToken_Cons matchToken_def tokenRules_def matchComment_def
      matchNewline_def matchText_def matchSpace_def matchString_def matchQuoted_def matchComma_def
      split: if_splits option.splits)

lemmas char_defs = textChar_def identifierChar_def asciiLetter_def surrogate_def symbol_def
  digit_def commas_def
lemmas lex_eval = tokenize_def ascii_def nextToken_def matchToken_Cons char_defs

lemma tokenize_all:
  assumes "\<And>sfx k n p. sfx \<noteq> [] \<Longrightarrow> nextToken sfx = (k, n) \<Longrightarrow> P (Token k p (p + n) (take n sfx))"
  shows "t \<in> set (tokenize inp) \<Longrightarrow> P t"
  unfolding tokenize_def using assms by (rule lexFrom_all)

lemma tokenize_at:
  assumes "t \<in> set (tokenize inp)"
  shows "nextToken (drop (tstart t) inp) = (kind t, length (raw t))"
  using lexFrom_at [of t 0 inp] assms by (simp add: tokenize_def)

lemma matchToken_None_iff:
  "matchToken (c # cs) = None \<longleftrightarrow>
     \<not> textChar c \<and> c \<noteq> 0x23 \<and> c \<noteq> 0x0A \<and> c \<noteq> 0x20 \<and> c \<notin> set commas \<and>
     (c = 0x22 \<or> c = 0x27 \<longrightarrow> matchQuoted c (c # cs) = None)"
  using comma_codes [of c] by (auto simp: matchToken_Cons split: option.splits)

text \<open>
  Claim C2, as amended. For every input the tokens of the lexer have contiguous spans
  that do not overlap and cover the input exactly. Each token is the match of a token
  rule at its offset, or else an error token of one character at an offset where no
  token rule matches; and no token rule matches at a character exactly when it is not
  a \<open>Text\<close> character, not \<open>#\<close>, newline, space or one of the commas, and not a quote
  that opens a closed \<open>String\<close>.
\<close>

theorem tokenize_partition:
  "covers 0 (tokenize inp) inp \<and>
   (\<forall>t \<in> set (tokenize inp).
      if kind t = Err then length (raw t) = 1 \<and> matchToken (drop (tstart t) inp) = None
      else matchToken (drop (tstart t) inp) = Some (kind t, length (raw t))) \<and>
   (\<forall>c cs. matchToken (c # cs) = None \<longleftrightarrow>
      \<not> textChar c \<and> c \<noteq> 0x23 \<and> c \<noteq> 0x0A \<and> c \<noteq> 0x20 \<and> c \<notin> set commas \<and>
      (c = 0x22 \<or> c = 0x27 \<longrightarrow> matchQuoted c (c # cs) = None))"
proof (intro conjI ballI allI)
  show "covers 0 (tokenize inp) inp" unfolding tokenize_def by (rule lexFrom_covers)
next
  fix t assume "t \<in> set (tokenize inp)"
  then have m: "nextToken (drop (tstart t) inp) = (kind t, length (raw t))" by (rule tokenize_at)
  then show "if kind t = Err then length (raw t) = 1 \<and> matchToken (drop (tstart t) inp) = None
      else matchToken (drop (tstart t) inp) = Some (kind t, length (raw t))"
    by (cases rule: nextToken_cases) simp_all
next
  fix c cs
  show "matchToken (c # cs) = None \<longleftrightarrow>
      \<not> textChar c \<and> c \<noteq> 0x23 \<and> c \<noteq> 0x0A \<and> c \<noteq> 0x20 \<and> c \<notin> set commas \<and>
      (c = 0x22 \<or> c = 0x27 \<longrightarrow> matchQuoted c (c # cs) = None)"
    by (rule matchToken_None_iff)
qed

text \<open>
  Claim C2 as stated fails at a tab: it is no \<open>Text\<close> character and no symbol, no token
  rule matches it, and the lexer leaves it as an error token.
\<close>

theorem tokenize_tab:
  "\<not> textChar 0x09 \<and> \<not> symbol 0x09 \<and> matchToken [0x09] = None \<and>
   tokenize [0x09] = [Token Err 0 1 [0x09]]"
  by (simp add: lex_eval)

theorem tokenize_partition_witness:
  "tokenize [0x61, 0x09, 0x22, 0x62] =
     [Token Text 0 1 [0x61], Token Err 1 2 [0x09], Token Err 2 3 [0x22], Token Text 3 4 [0x62]] \<and>
   covers 0 [Token Text 0 1 [0x61], Token Err 1 2 [0x09], Token Err 2 3 [0x22],
             Token Text 3 4 [0x62]] [0x61, 0x09, 0x22, 0x62] \<and>
   matchToken [0x61, 0x09, 0x22, 0x62] = Some (Text, 1) \<and>
   matchToken [0x09, 0x22, 0x62] = None \<and>
   matchToken [0x22, 0x62] = None \<and> matchQuoted 0x22 [0x22, 0x62] = None \<and>
   matchToken [0x62] = Some (Text, 1)"
proof -
  let ?I = "[0x61, 0x09, 0x22, 0x62] :: codepoint list"
  let ?T = "[Token Text 0 1 [0x61], Token Err 1 2 [0x09], Token Err 2 3 [0x22],
             Token Text 3 4 [0x62]]"
  note P = tokenize_partition [of ?I]
  have t: "tokenize ?I = ?T" by (simp add: lex_eval matchQuoted_def)
  from P have c: "covers 0 (tokenize ?I) ?I" by (rule conjunct1)
  from P have "\<forall>t \<in> set (tokenize ?I).
      if kind t = Err then length (raw t) = 1 \<and> matchToken (drop (tstart t) ?I) = None
      else matchToken (drop (tstart t) ?I) = Some (kind t, length (raw t))" by blast
  then have m: "matchToken ?I = Some (Text, 1)" "matchToken [0x09, 0x22, 0x62] = None"
      "matchToken [0x22, 0x62] = None" "matchToken [0x62] = Some (Text, 1)"
    unfolding t by simp_all
  from P have "matchToken (0x22 # [0x62]) = None \<longleftrightarrow>
      \<not> textChar 0x22 \<and> (0x22 :: nat) \<noteq> 0x23 \<and> (0x22 :: nat) \<noteq> 0x0A \<and> (0x22 :: nat) \<noteq> 0x20 \<and>
      0x22 \<notin> set commas \<and>
      ((0x22 :: nat) = 0x22 \<or> (0x22 :: nat) = 0x27 \<longrightarrow> matchQuoted 0x22 (0x22 # [0x62]) = None)"
    by blast
  with m(3) have q: "matchQuoted 0x22 [0x22, 0x62] = None" by simp
  from t c m q show ?thesis by simp
qed

lemma token_comma_free:
  assumes ne: "sfx \<noteq> []" and m: "nextToken sfx = (k, n)"
  shows "(k = Text \<longrightarrow> (\<forall>c \<in> set (take n sfx). textChar c \<and> c \<notin> set commas)) \<and>
         ((\<exists>c \<in> set (take n sfx). c \<in> set commas) \<longrightarrow>
            k = Comma \<and> length (take n sfx) = 1 \<or> k = String \<or> k = Comment)"
  using m
proof (cases rule: nextToken_cases)
  case err
  from ne obtain c cs where sfx: "sfx = c # cs" by (cases sfx) auto
  with err matchToken_None [of c cs] have "c \<notin> set commas" by simp
  with err sfx show ?thesis by simp
next
  case tok
  note m = tok(2)
  have tx: "\<forall>c \<in> set (take n sfx). textChar c \<and> c \<notin> set commas" if "k = Text"
  proof -
    from m that have "take n sfx = takeWhile textChar sfx" using matchToken_Text by blast
    then show ?thesis using textChar_not_special(6) by (auto dest: set_takeWhileD)
  qed
  from matchToken_kind [OF m]
  consider "k = Text" | "k = newline \<or> k = space \<or> k = Comma" | "k = String \<or> k = Comment" by blast
  then show ?thesis
  proof cases
    case 1 with tx show ?thesis by auto
  next
    case 2
    from matchToken_single [OF m 2] obtain c where n: "n = 1" and c: "take n sfx = [c]"
      and cm: "c \<in> set commas \<longrightarrow> k = Comma" by blast
    from 2 have "k \<noteq> Text" by auto
    then show ?thesis using c cm by simp
  next
    case 3 then show ?thesis by auto
  qed
qed

text \<open>
  Claim C6, as amended. None of the four commas is a \<open>Text\<close> character, and at a comma
  the lexer takes the one-character separator token whatever follows. Every other code
  point from U+00A1 to U+10FFFF that is not a surrogate is an identifier character; a
  surrogate is no \<open>Text\<close> character. In the tokens of any input a \<open>Text\<close> token holds no
  comma, and a token that holds one is the one-character separator, or else a quoted
  \<open>String\<close> or a \<open>Comment\<close>.
\<close>

theorem comma_separator:
  "(\<forall>c \<in> set commas. \<not> textChar c \<and> matchToken (c # cs) = Some (Comma, 1)) \<and>
   (\<forall>c. 0xA1 \<le> c \<and> c \<le> 0x10FFFF \<and> c \<notin> set commas \<and> \<not> surrogate c \<longrightarrow>
      identifierChar c \<and> textChar c) \<and>
   (\<forall>c. surrogate c \<longrightarrow> \<not> textChar c) \<and>
   (\<forall>t \<in> set (tokenize inp).
      (kind t = Text \<longrightarrow> (\<forall>c \<in> set (raw t). textChar c \<and> c \<notin> set commas)) \<and>
      ((\<exists>c \<in> set (raw t). c \<in> set commas) \<longrightarrow>
         kind t = Comma \<and> length (raw t) = 1 \<or> kind t = String \<or> kind t = Comment))"
proof (intro conjI)
  show "\<forall>c \<in> set commas. \<not> textChar c \<and> matchToken (c # cs) = Some (Comma, 1)"
  proof
    fix c assume c: "c \<in> set commas"
    then have n: "\<not> textChar c" using textChar_not_special(6) by blast
    with c comma_codes [OF c] have "matchToken (c # cs) = Some (Comma, 1)"
      by (simp add: matchToken_Cons)
    with n show "\<not> textChar c \<and> matchToken (c # cs) = Some (Comma, 1)" by simp
  qed
next
  show "\<forall>c. 0xA1 \<le> c \<and> c \<le> 0x10FFFF \<and> c \<notin> set commas \<and> \<not> surrogate c \<longrightarrow>
      identifierChar c \<and> textChar c"
  proof (intro allI impI)
    fix c :: nat assume a: "0xA1 \<le> c \<and> c \<le> 0x10FFFF \<and> c \<notin> set commas \<and> \<not> surrogate c"
    then have "(0xA1 \<le> c \<and> c \<le> 0x60B) \<or> (0x60D \<le> c \<and> c \<le> 0x3000) \<or>
        (0x3002 \<le> c \<and> c \<le> 0xFF0B) \<or> (0xFF0D \<le> c \<and> c \<le> 0x10FFFF)"
      by (simp add: commas_def) arith
    with a have "identifierChar c" by (simp add: identifierChar_def)
    then show "identifierChar c \<and> textChar c" by (simp add: textChar_def)
  qed
next
  show "\<forall>c. surrogate c \<longrightarrow> \<not> textChar c"
    by (auto simp: textChar_def identifierChar_def asciiLetter_def surrogate_def symbol_def
        digit_def)
next
  let ?P = "\<lambda>t. (kind t = Text \<longrightarrow> (\<forall>c \<in> set (raw t). textChar c \<and> c \<notin> set commas)) \<and>
         ((\<exists>c \<in> set (raw t). c \<in> set commas) \<longrightarrow>
            kind t = Comma \<and> length (raw t) = 1 \<or> kind t = String \<or> kind t = Comment)"
  show "\<forall>t \<in> set (tokenize inp). ?P t"
  proof
    fix t assume t: "t \<in> set (tokenize inp)"
    show "?P t"
    proof (rule tokenize_all [where P = ?P, OF _ t])
      fix sfx k n p assume "sfx \<noteq> []" "nextToken sfx = (k, n)"
      from token_comma_free [OF this] show "?P (Token k p (p + n) (take n sfx))" by simp
    qed
  qed
qed

text \<open>
  Claim C6 as stated fails at an unpaired surrogate: U+D800 lies between U+00A1 and
  U+10FFFF and is none of the commas, but it is no \<open>Text\<close> character and the lexer
  has no token for it. And a comma inside a quoted \<open>String\<close> is no separator token.
\<close>

theorem lone_surrogate:
  "(0xA1 :: nat) \<le> 0xD800 \<and> (0xD800 :: nat) \<le> 0x10FFFF \<and> 0xD800 \<notin> set commas \<and>
   \<not> identifierChar 0xD800 \<and> \<not> textChar 0xD800 \<and>
   tokenize [0xD800] = [Token Err 0 1 [0xD800]] \<and>
   tokenize [0x22, 0x2C, 0x22] = [Token String 0 3 [0x22, 0x2C, 0x22]]"
  by (simp add: lex_eval matchQuoted_def)

theorem comma_separator_witness:
  "0x60C \<in> set commas \<and> \<not> textChar 0x60C \<and> matchToken [0x60C, 0x31] = Some (Comma, 1) \<and>
   \<not> surrogate 0x3042 \<and> identifierChar 0x3042 \<and> textChar 0x3042 \<and>
   surrogate 0xDC00 \<and> \<not> textChar 0xDC00 \<and>
   tokenize [0x31, 0x60C, 0x32] =
     [Token Text 0 1 [0x31], Token Comma 1 2 [0x60C], Token Text 2 3 [0x32]] \<and>
   0x60C \<notin> set (raw (Token Text 0 1 [0x31])) \<and>
   kind (Token Comma 1 2 [0x60C]) = Comma \<and> length (raw (Token Comma 1 2 [0x60C])) = 1"
proof -
  note S = comma_separator [of "[0x31]" "[0x31, 0x60C, 0x32]"]
  have t: "tokenize [0x31, 0x60C, 0x32] =
     [Token Text 0 1 [0x31], Token Comma 1 2 [0x60C], Token Text 2 3 [0x32]]"
    by (simp add: lex_eval)
  have c: "0x60C \<in> set commas" by (simp add: commas_def)
  with S have 1: "\<not> textChar 0x60C \<and> matchToken [0x60C, 0x31] = Some (Comma, 1)" by blast
  have s: "\<not> surrogate 0x3042" "surrogate 0xDC00" by (simp_all add: surrogate_def)
  have "(0xA1 :: nat) \<le> 0x3042 \<and> (0x3042 :: nat) \<le> 0x10FFFF \<and> 0x3042 \<notin> set commas"
    by (simp add: commas_def)
  with S s(1) have 2: "identifierChar 0x3042 \<and> textChar 0x3042" by blast
  from S s(2) have 3: "\<not> textChar 0xDC00" by blast
  from S have "\<forall>t \<in> set (tokenize [0x31, 0x60C, 0x32]).
      (kind t = Text \<longrightarrow> (\<forall>c \<in> set (raw t). textChar c \<and> c \<notin> set commas))" by blast
  then have 4: "0x60C \<notin> set (raw (Token Text 0 1 [0x31]))" unfolding t by simp
  from c 1 s 2 3 t 4 show ?thesis by simp
qed

lemma quote_not_textChar: "q = 0x22 \<or> q = 0x27 \<Longrightarrow> \<not> textChar q"
  using textChar_not_special(4,5) by blast




lemma maximalText_step:
  assumes ne: "sfx \<noteq> []" and m: "nextToken sfx = (k, n)"
    and ne': "drop n sfx \<noteq> []" and m': "nextToken (drop n sfx) = (k', n')"
  shows "maximalText (Token k p (p + n) (take n sfx)) (Token k' p' (p' + n') (take n' (drop n sfx)))"
proof -
  from nextToken_length [OF ne' m'] have n': "0 < n'" by simp
  with ne' have hd: "hd (take n' (drop n sfx)) = hd (drop n sfx)" by (cases "drop n sfx") auto
  have a: "\<not> textChar (hd (drop n sfx))" if "k = Text"
  proof -
    from m that have "matchToken sfx = Some (Text, n)" by (cases rule: nextToken_cases) simp_all
    then have "drop n sfx = dropWhile textChar sfx" using matchToken_Text by blast
    with ne' show ?thesis using hd_dropWhile [of textChar sfx] by simp
  qed
  have b: "\<not> textChar (last (take n sfx))" if k': "k' = Text"
  proof -
    from m' k' have "matchToken (drop n sfx) = Some (Text, n')"
      by (cases rule: nextToken_cases) simp_all
    then have t: "textChar (hd (drop n sfx))" using matchToken_hd_Text by blast
    from m show ?thesis
    proof (cases rule: nextToken_cases)
      case err
      from ne obtain c cs where sfx: "sfx = c # cs" by (cases sfx) auto
      with err matchToken_None [of c cs] show ?thesis by simp
    next
      case tok
      note m = tok(2)
      from matchToken_kind [OF m]
      consider "k = Text" | "k = Comment" | "k = newline \<or> k = space \<or> k = Comma" | "k = String"
        by blast
      then show ?thesis
      proof cases
        case 1 with a t show ?thesis by simp
      next
        case 2
        with m have "drop n sfx = dropWhile (\<lambda>d. d \<noteq> 0x0A) (tl sfx)" using matchToken_Comment by blast
        with ne' have "hd (drop n sfx) = 0x0A" using hd_dropWhile [of "\<lambda>d. d \<noteq> 0x0A" "tl sfx"] by simp
        with t textChar_not_special(2) show ?thesis by metis
      next
        case 3
        from matchToken_single [OF m 3] show ?thesis by auto
      next
        case 4
        with m matchToken_String [of sfx n] obtain q body where "q = 0x22 \<or> q = 0x27"
          and "take n sfx = q # body @ [q]" by blast
        then show ?thesis using quote_not_textChar by simp
      qed
    qed
  qed
  show ?thesis unfolding maximalText_def using a b hd by simp
qed

text \<open>
  Claim C10. Every character of the symbol set is a \<open>Text\<close> character, \<open>a+b.c\<close> lexes
  as one \<open>Text\<close> token, and in the tokens of any input a symbol character lies inside a
  \<open>Text\<close> token (or inside a \<open>String\<close> or \<open>Comment\<close>), never in a token of its own;
  \<open>Text\<close> tokens are maximal runs.
\<close>

theorem symbol_absorbed:
  "(\<forall>c. symbol c \<longrightarrow> textChar c) \<and>
   tokenize (ascii ''a+b.c'') = [Token Text 0 5 (ascii ''a+b.c'')] \<and>
   (\<forall>t \<in> set (tokenize inp). (\<exists>c \<in> set (raw t). symbol c) \<longrightarrow>
       kind t = Text \<or> kind t = String \<or> kind t = Comment) \<and>
   successively maximalText (tokenize inp)"
proof (intro conjI)
  show "\<forall>c. symbol c \<longrightarrow> textChar c" by (simp add: textChar_def)
next
  show "tokenize (ascii ''a+b.c'') = [Token Text 0 5 (ascii ''a+b.c'')]"
    by (simp add: lex_eval)
next
  let ?P = "\<lambda>t. (\<exists>c \<in> set (raw t). symbol c) \<longrightarrow>
          kind t = Text \<or> kind t = String \<or> kind t = Comment"
  show "\<forall>t \<in> set (tokenize inp). ?P t"
  proof
    fix t assume t: "t \<in> set (tokenize inp)"
    show "?P t"
    proof (rule tokenize_all [where P = ?P, OF _ t])
      fix sfx k n p assume ne: "sfx \<noteq> []" and m: "nextToken sfx = (k, n)"
      from m show "?P (Token k p (p + n) (take n sfx))"
      proof (cases rule: nextToken_cases)
        case err
        from ne obtain c cs where sfx: "sfx = c # cs" by (cases sfx) auto
        with err matchToken_None [of c cs] have "\<not> symbol c" by (simp add: textChar_def)
        with err sfx show ?thesis by simp
      next
        case tok
        note m = tok(2)
        from matchToken_kind [OF m]
        consider "k = newline \<or> k = space \<or> k = Comma" | "k = Text \<or> k = String \<or> k = Comment"
          by blast
        then show ?thesis
        proof cases
          case 1 from matchToken_single [OF m 1] show ?thesis by auto
        next
          case 2 then show ?thesis by simp
        qed
      qed
    qed
  qed
next
  show "successively maximalText (tokenize inp)"
    unfolding tokenize_def using maximalText_step by (rule lexFrom_successively [rotated])
qed

theorem symbol_absorbed_witness:
  "symbol 0x2B \<and> textChar 0x2B \<and>
   tokenize (ascii ''a+b c'') =
     [Token Text 0 3 [0x61, 0x2B, 0x62], Token space 3 4 [0x20], Token Text 4 5 [0x63]] \<and>
   successively maximalText
     [Token Text 0 3 [0x61, 0x2B, 0x62], Token space 3 4 [0x20], Token Text 4 5 [0x63]]"
proof -
  let ?T = "[Token Text 0 3 [0x61, 0x2B, 0x62], Token space 3 4 [0x20], Token Text 4 5 [0x63]]"
  have s: "symbol 0x2B" by (simp add: symbol_def)
  have t: "tokenize (ascii ''a+b c'') = ?T" by (simp add: lex_eval)
  note A = symbol_absorbed [of "ascii ''a+b c''"]
  from A s have "textChar 0x2B" by blast
  moreover from A have "successively maximalText (tokenize (ascii ''a+b c''))" by blast
  then have "successively maximalText ?T" unfolding t .
  ultimately show ?thesis using s t by blast
qed


section \<open>The grammar\<close>

subsection \<open>What the operators match\<close>

lemma in_tk: "(ts, r) \<in> set (tk k inp) \<longleftrightarrow> (\<exists>t. inp = t # r \<and> kind t = k \<and> ts = leaf t)"
  by (cases inp) (auto simp: tk_def)

lemma in_map_prefix:
  "(ts, r) \<in> set (map (\<lambda>(ts', r'). (a @ ts', r')) xs) \<longleftrightarrow> (\<exists>ts2. (ts2, r) \<in> set xs \<and> ts = a @ ts2)"
  by (induction xs) auto

lemma in_bind:
  "(ts, r) \<in> set (concat (map (\<lambda>(ts1, m). map (\<lambda>(ts', r'). (ts1 @ ts', r')) (q m)) xs)) \<longleftrightarrow>
     (\<exists>ts1 m ts2. (ts1, m) \<in> set xs \<and> (ts2, r) \<in> set (q m) \<and> ts = ts1 @ ts2)"
proof (induction xs)
  case Nil show ?case by simp
next
  case (Cons x xs)
  obtain a m where x: "x = (a, m)" by (cases x)
  have "(ts, r) \<in> set (concat (map (\<lambda>(ts1, m). map (\<lambda>(ts', r'). (ts1 @ ts', r')) (q m)) (x # xs)))
      \<longleftrightarrow> (ts, r) \<in> set (map (\<lambda>(ts', r'). (a @ ts', r')) (q m)) \<or>
          (ts, r) \<in> set (concat (map (\<lambda>(ts1, m). map (\<lambda>(ts', r'). (ts1 @ ts', r')) (q m)) xs))"
    by (simp add: x)
  also have "\<dots> \<longleftrightarrow> (\<exists>ts2. (ts2, r) \<in> set (q m) \<and> ts = a @ ts2) \<or>
      (\<exists>ts1 m ts2. (ts1, m) \<in> set xs \<and> (ts2, r) \<in> set (q m) \<and> ts = ts1 @ ts2)"
    unfolding in_map_prefix Cons.IH ..
  also have "\<dots> \<longleftrightarrow> (\<exists>ts1 m' ts2. (ts1, m') \<in> set (x # xs) \<and> (ts2, r) \<in> set (q m') \<and> ts = ts1 @ ts2)"
    unfolding x by auto
  finally show ?case .
qed

lemma in_seq:
  "(ts, r) \<in> set (seq p q inp) \<longleftrightarrow>
     (\<exists>ts1 m ts2. (ts1, m) \<in> set (p inp) \<and> (ts2, r) \<in> set (q m) \<and> ts = ts1 @ ts2)"
  unfolding seq_def by (rule in_bind)


lemma in_rep_bind:
  "(ts, r) \<in> set (concat (map (\<lambda>(ts1, m). (ts1, m) # map (\<lambda>(ts', r'). (ts1 @ ts', r')) (f m)) xs)) \<longleftrightarrow>
     (\<exists>ts1 m. (ts1, m) \<in> set xs \<and>
        (ts = ts1 \<and> r = m \<or> (\<exists>ts2. (ts2, r) \<in> set (f m) \<and> ts = ts1 @ ts2)))"
proof (induction xs)
  case Nil show ?case by simp
next
  case (Cons x xs)
  obtain a m where x: "x = (a, m)" by (cases x)
  have "(ts, r) \<in> set (concat (map (\<lambda>(ts1, m). (ts1, m) # map (\<lambda>(ts', r'). (ts1 @ ts', r')) (f m)) (x # xs)))
      \<longleftrightarrow> (ts = a \<and> r = m \<or> (ts, r) \<in> set (map (\<lambda>(ts', r'). (a @ ts', r')) (f m))) \<or>
          (ts, r) \<in> set (concat (map (\<lambda>(ts1, m). (ts1, m) # map (\<lambda>(ts', r'). (ts1 @ ts', r')) (f m)) xs))"
    by (simp add: x)
  also have "\<dots> \<longleftrightarrow> (ts = a \<and> r = m \<or> (\<exists>ts2. (ts2, r) \<in> set (f m) \<and> ts = a @ ts2)) \<or>
      (\<exists>ts1 m. (ts1, m) \<in> set xs \<and>
        (ts = ts1 \<and> r = m \<or> (\<exists>ts2. (ts2, r) \<in> set (f m) \<and> ts = ts1 @ ts2)))"
    unfolding in_map_prefix Cons.IH ..
  also have "\<dots> \<longleftrightarrow> (\<exists>ts1 m'. (ts1, m') \<in> set (x # xs) \<and>
        (ts = ts1 \<and> r = m' \<or> (\<exists>ts2. (ts2, r) \<in> set (f m') \<and> ts = ts1 @ ts2)))"
    unfolding x by auto
  finally show ?case .
qed

lemma in_rep_Suc:
  "(ts, r) \<in> set (rep (Suc n) p inp) \<longleftrightarrow>
     (\<exists>ts1 m. (ts1, m) \<in> set (p inp) \<and>
        (ts = ts1 \<and> r = m \<or> (\<exists>ts2. (ts2, r) \<in> set (rep n p m) \<and> ts = ts1 @ ts2)))"
  unfolding rep.simps by (rule in_rep_bind)

lemma in_alt: "(ts, r) \<in> set (alt p q inp) \<longleftrightarrow> (ts, r) \<in> set (p inp) \<or> (ts, r) \<in> set (q inp)"
  by (simp add: alt_def)

lemma in_opt: "(ts, r) \<in> set (opt p inp) \<longleftrightarrow> (ts, r) \<in> set (p inp) \<or> ts = [] \<and> r = inp"
  by (auto simp: opt_def)

lemma in_node:
  "(ts, r) \<in> set (node n p inp) \<longleftrightarrow>
     (\<exists>ts0. (ts0, r) \<in> set (p inp) \<and> ts = [Node n (spanFrom inp) (spanTo inp r) ts0])"
  by (force simp: node_def)

lemma in_rep_0: "(ts, r) \<in> set (rep 0 p inp) \<longleftrightarrow> False"
  by simp

lemma in_rep0: "(ts, r) \<in> set (rep0 p inp) \<longleftrightarrow> (ts, r) \<in> set (rep1 p inp) \<or> ts = [] \<and> r = inp"
  by (auto simp: rep0_def)

lemma sum_score_zero: "\<forall>t \<in> set ts. score t = 0 \<Longrightarrow> sum_list (map score ts) = 0"
  by (induction ts) auto

lemma zero_scoredI:
  assumes "\<And>inp ts r t. (ts, r) \<in> set (p inp) \<Longrightarrow> t \<in> set ts \<Longrightarrow> score t = 0"
  shows "zero_scored p"
  using assms unfolding zero_scored_def by blast

lemma zero_scoredD: "zero_scored p \<Longrightarrow> (ts, r) \<in> set (p inp) \<Longrightarrow> t \<in> set ts \<Longrightarrow> score t = 0"
  unfolding zero_scored_def by blast

lemma zero_scored_tk: "k \<noteq> Keyword ''ErrorInvalid'' \<Longrightarrow> zero_scored (tk k)"
proof (rule zero_scoredI)
  fix inp ts r t
  assume k: "k \<noteq> Keyword ''ErrorInvalid''" and "(ts, r) \<in> set (tk k inp)" and t: "t \<in> set ts"
  then obtain x where "kind x = k" and "ts = leaf x" unfolding in_tk by blast
  with k t show "score t = 0"
    by (cases k) (auto simp: leaf_def dynamicPrecedence_def)
qed

lemma zero_scored_kw: "r \<noteq> ''ErrorInvalid'' \<Longrightarrow> zero_scored (kw r)"
  unfolding kw_def by (rule zero_scored_tk) simp

lemma zero_scored_seq: "zero_scored p \<Longrightarrow> zero_scored q \<Longrightarrow> zero_scored (seq p q)"
proof (rule zero_scoredI)
  fix inp ts r t
  assume p: "zero_scored p" and q: "zero_scored q"
    and "(ts, r) \<in> set (seq p q inp)" and t: "t \<in> set ts"
  then obtain ts1 m ts2 where "(ts1, m) \<in> set (p inp)" "(ts2, r) \<in> set (q m)" "ts = ts1 @ ts2"
    unfolding in_seq by blast
  with t zero_scoredD [OF p] zero_scoredD [OF q] show "score t = 0" by auto
qed

lemma zero_scored_alt: "zero_scored p \<Longrightarrow> zero_scored q \<Longrightarrow> zero_scored (alt p q)"
  unfolding zero_scored_def in_alt by blast

lemma zero_scored_opt: "zero_scored p \<Longrightarrow> zero_scored (opt p)"
proof (rule zero_scoredI)
  fix inp ts r t
  assume p: "zero_scored p" and "(ts, r) \<in> set (opt p inp)" and t: "t \<in> set ts"
  then have "(ts, r) \<in> set (p inp) \<or> ts = []" unfolding in_opt by blast
  with t zero_scoredD [OF p] show "score t = 0" by auto
qed

lemma zero_scored_rep: "zero_scored p \<Longrightarrow> zero_scored (rep n p)"
proof (induction n)
  case 0 show ?case by (simp add: zero_scored_def)
next
  case (Suc n)
  show ?case
  proof (rule zero_scoredI)
    fix inp ts r t
    assume "(ts, r) \<in> set (rep (Suc n) p inp)" and t: "t \<in> set ts"
    then obtain ts1 m where a: "(ts1, m) \<in> set (p inp)"
      and b: "ts = ts1 \<and> r = m \<or> (\<exists>ts2. (ts2, r) \<in> set (rep n p m) \<and> ts = ts1 @ ts2)"
      unfolding in_rep_Suc by blast
    from b show "score t = 0"
    proof
      assume "ts = ts1 \<and> r = m"
      with a t zero_scoredD [OF Suc.prems] show ?thesis by blast
    next
      assume "\<exists>ts2. (ts2, r) \<in> set (rep n p m) \<and> ts = ts1 @ ts2"
      then obtain ts2 where c: "(ts2, r) \<in> set (rep n p m)" and d: "ts = ts1 @ ts2" by blast
      from t d have "t \<in> set ts1 \<or> t \<in> set ts2" by simp
      with a c zero_scoredD [OF Suc.prems] zero_scoredD [OF Suc.IH [OF Suc.prems]]
      show ?thesis by blast
    qed
  qed
qed

lemma zero_scored_rep1: "zero_scored p \<Longrightarrow> zero_scored (rep1 p)"
  using zero_scored_rep unfolding zero_scored_def rep1_def by blast

lemma zero_scored_rep0: "zero_scored p \<Longrightarrow> zero_scored (rep0 p)"
proof (rule zero_scoredI)
  fix inp ts r t
  assume p: "zero_scored p" and "(ts, r) \<in> set (rep0 p inp)" and t: "t \<in> set ts"
  then have "(ts, r) \<in> set (rep1 p inp) \<or> ts = []" unfolding in_rep0 by blast
  with t zero_scoredD [OF zero_scored_rep1 [OF p]] show "score t = 0" by auto
qed

lemma zero_scored_node: "n \<noteq> ''ErrorInvalid'' \<Longrightarrow> zero_scored p \<Longrightarrow> zero_scored (node n p)"
proof (rule zero_scoredI)
  fix inp ts r t
  assume n: "n \<noteq> ''ErrorInvalid''" and p: "zero_scored p"
    and "(ts, r) \<in> set (node n p inp)" and t: "t \<in> set ts"
  then obtain ts0 where a: "(ts0, r) \<in> set (p inp)"
    and b: "ts = [Node n (spanFrom inp) (spanTo inp r) ts0]" unfolding in_node by blast
  from a zero_scoredD [OF p] have "\<forall>t \<in> set ts0. score t = 0" by blast
  then have "sum_list (map score ts0) = 0" by (rule sum_score_zero)
  with b t n show "score t = 0" by (simp add: dynamicPrecedence_def)
qed

lemmas zero_scored_intros = zero_scored_tk zero_scored_kw zero_scored_seq zero_scored_alt
  zero_scored_opt zero_scored_rep1 zero_scored_rep0 zero_scored_node

lemma zero_scored_ListAccess: "zero_scored ListAccess"
  unfolding ListAccess_def by (intro zero_scored_intros; simp)

lemma zero_scored_arg: "zero_scored (alt (tk String) (alt (tk Text) ListAccess))"
  by (intro zero_scored_intros zero_scored_ListAccess; simp)

lemma zero_scored_val: "zero_scored (alt (tk Text) ListAccess)"
  by (intro zero_scored_intros zero_scored_ListAccess; simp)

lemma zero_scored_rules:
  "zero_scored Assign" "zero_scored AssignList" "zero_scored Ask" "zero_scored Clear"
  "zero_scored Print" "zero_scored Play" "zero_scored Turtle" "zero_scored Sleep"
  "zero_scored Add" "zero_scored Remove"
  unfolding Assign_def AssignList_def Ask_def Clear_def Print_def Play_def Turtle_def Forward_def
    Turn_def Color_def Sleep_def Add_def Remove_def Op_def
  by (intro zero_scored_intros zero_scored_ListAccess; simp)+

lemma node_result:
  "(ts, r) \<in> set (node n p inp) \<Longrightarrow> \<exists>a b cs. ts = [Node n a b cs]"
  unfolding in_node by blast

lemma named_result:
  assumes "(ts, r) \<in> set (R inp)" and "zero_scored R" and "R = node n p"
  shows "\<exists>c. ts = [c] \<and> name c = n \<and> score c = 0"
proof -
  from assms(1,3) obtain a b cs where ts: "ts = [Node n a b cs]" using node_result by blast
  with zero_scoredD [OF assms(2,1)] have "score (Node n a b cs) = 0" by simp
  with ts show ?thesis by simp
qed

lemma ErrorInvalid_result:
  assumes "(ts, r) \<in> set (ErrorInvalid inp)"
  shows "\<exists>c. ts = [c] \<and> name c = ''ErrorInvalid'' \<and> score c = - 10"
proof -
  from assms obtain ts0 where a: "(ts0, r) \<in> set (rep1 (tk Text) inp)"
    and ts: "ts = [Node ''ErrorInvalid'' (spanFrom inp) (spanTo inp r) ts0]"
    unfolding ErrorInvalid_def in_node by blast
  have "zero_scored (rep1 (tk Text))" by (intro zero_scored_intros) simp
  from zero_scoredD [OF this a] have "sum_list (map score ts0) = 0" by (intro sum_score_zero) blast
  with ts show ?thesis by (simp add: dynamicPrecedence_def)
qed

lemma Command_alts:
  "(ts, r) \<in> set (Command inp) \<longleftrightarrow>
     (\<exists>ts0. ts = [Node ''Command'' (spanFrom inp) (spanTo inp r) ts0] \<and>
       ((ts0, r) \<in> set (Assign inp) \<or> (ts0, r) \<in> set (AssignList inp) \<or>
        (ts0, r) \<in> set (Ask inp) \<or> (ts0, r) \<in> set (Clear inp) \<or> (ts0, r) \<in> set (Print inp) \<or>
        (ts0, r) \<in> set (Play inp) \<or> (ts0, r) \<in> set (Turtle inp) \<or> (ts0, r) \<in> set (Sleep inp) \<or>
        (ts0, r) \<in> set (Add inp) \<or> (ts0, r) \<in> set (Remove inp) \<or>
        (ts0, r) \<in> set (ErrorInvalid inp)))"
  unfolding Command_def in_node in_alt by (rule iffI; elim exE conjE; intro exI conjI; assumption)

lemma named_alt_result:
  assumes "(ts0, r) \<in> set (Assign inp) \<or> (ts0, r) \<in> set (AssignList inp) \<or>
       (ts0, r) \<in> set (Ask inp) \<or> (ts0, r) \<in> set (Clear inp) \<or> (ts0, r) \<in> set (Print inp) \<or>
       (ts0, r) \<in> set (Play inp) \<or> (ts0, r) \<in> set (Turtle inp) \<or> (ts0, r) \<in> set (Sleep inp) \<or>
       (ts0, r) \<in> set (Add inp) \<or> (ts0, r) \<in> set (Remove inp)"
  shows "\<exists>c. ts0 = [c] \<and> name c \<in> set named \<and> score c = 0"
proof -
  have n: "\<exists>c. ts0 = [c] \<and> name c \<in> set named \<and> score c = 0"
    if "(ts0, r) \<in> set (R inp)" "zero_scored R" "R = node n p" "n \<in> set named" for R n p
    using named_result [OF that(1,2,3)] that(4) by blast
  have nm: "''Assign'' \<in> set named" "''AssignList'' \<in> set named" "''Ask'' \<in> set named"
    "''Clear'' \<in> set named" "''Print'' \<in> set named" "''Play'' \<in> set named"
    "''Turtle'' \<in> set named" "''Sleep'' \<in> set named" "''Add'' \<in> set named"
    "''Remove'' \<in> set named"
    by (simp_all add: named_def)
  from assms show ?thesis
  proof (elim disjE)
    assume "(ts0, r) \<in> set (Assign inp)"
    then show ?thesis by (rule n [OF _ zero_scored_rules(1) Assign_def nm(1)])
  next
    assume "(ts0, r) \<in> set (AssignList inp)"
    then show ?thesis by (rule n [OF _ zero_scored_rules(2) AssignList_def nm(2)])
  next
    assume "(ts0, r) \<in> set (Ask inp)"
    then show ?thesis by (rule n [OF _ zero_scored_rules(3) Ask_def nm(3)])
  next
    assume "(ts0, r) \<in> set (Clear inp)"
    then show ?thesis by (rule n [OF _ zero_scored_rules(4) Clear_def nm(4)])
  next
    assume "(ts0, r) \<in> set (Print inp)"
    then show ?thesis by (rule n [OF _ zero_scored_rules(5) Print_def nm(5)])
  next
    assume "(ts0, r) \<in> set (Play inp)"
    then show ?thesis by (rule n [OF _ zero_scored_rules(6) Play_def nm(6)])
  next
    assume "(ts0, r) \<in> set (Turtle inp)"
    then show ?thesis by (rule n [OF _ zero_scored_rules(7) Turtle_def nm(7)])
  next
    assume "(ts0, r) \<in> set (Sleep inp)"
    then show ?thesis by (rule n [OF _ zero_scored_rules(8) Sleep_def nm(8)])
  next
    assume "(ts0, r) \<in> set (Add inp)"
    then show ?thesis by (rule n [OF _ zero_scored_rules(9) Add_def nm(9)])
  next
    assume "(ts0, r) \<in> set (Remove inp)"
    then show ?thesis by (rule n [OF _ zero_scored_rules(10) Remove_def nm(10)])
  qed
qed

lemma Command_result:
  assumes "(ts, r) \<in> set (Command inp)"
  shows "\<exists>a b c. ts = [Node ''Command'' a b [c]] \<and>
           (name c \<in> set named \<and> score c = 0 \<or> name c = ''ErrorInvalid'' \<and> score c = - 10)"
proof -
  from assms obtain ts0 where ts: "ts = [Node ''Command'' (spanFrom inp) (spanTo inp r) ts0]" and
    alts: "((ts0, r) \<in> set (Assign inp) \<or> (ts0, r) \<in> set (AssignList inp) \<or>
       (ts0, r) \<in> set (Ask inp) \<or> (ts0, r) \<in> set (Clear inp) \<or> (ts0, r) \<in> set (Print inp) \<or>
       (ts0, r) \<in> set (Play inp) \<or> (ts0, r) \<in> set (Turtle inp) \<or> (ts0, r) \<in> set (Sleep inp) \<or>
       (ts0, r) \<in> set (Add inp) \<or> (ts0, r) \<in> set (Remove inp)) \<or> (ts0, r) \<in> set (ErrorInvalid inp)"
    unfolding Command_alts by blast
  from alts have "\<exists>c. ts0 = [c] \<and>
      (name c \<in> set named \<and> score c = 0 \<or> name c = ''ErrorInvalid'' \<and> score c = - 10)"
  proof
    assume "(ts0, r) \<in> set (Assign inp) \<or> (ts0, r) \<in> set (AssignList inp) \<or>
       (ts0, r) \<in> set (Ask inp) \<or> (ts0, r) \<in> set (Clear inp) \<or> (ts0, r) \<in> set (Print inp) \<or>
       (ts0, r) \<in> set (Play inp) \<or> (ts0, r) \<in> set (Turtle inp) \<or> (ts0, r) \<in> set (Sleep inp) \<or>
       (ts0, r) \<in> set (Add inp) \<or> (ts0, r) \<in> set (Remove inp)"
    from named_alt_result [OF this] show ?thesis by blast
  next
    assume "(ts0, r) \<in> set (ErrorInvalid inp)"
    from ErrorInvalid_result [OF this] show ?thesis by blast
  qed
  with ts show ?thesis by blast
qed

lemma in_complete: "d \<in> set (complete p inp) \<longleftrightarrow> (\<exists>ts. (ts, []) \<in> set (p inp) \<and> d \<in> set ts)"
  unfolding complete_def by force

lemma in_derivations:
  "d \<in> set (derivations p kt toks) \<longleftrightarrow> (\<exists>rd \<in> set (resolve kt toks). d \<in> set (complete p rd))"
  unfolding derivations_def by auto

lemma derivation_score:
  assumes "d \<in> set (derivations Command kt toks)"
  shows "(tag d \<in> set named \<and> score d = 0) \<or> (tag d = ''ErrorInvalid'' \<and> score d = - 10)"
proof -
  from assms obtain rd ts where "(ts, []) \<in> set (Command rd)" and d: "d \<in> set ts"
    unfolding in_derivations in_complete by blast
  from Command_result [OF this(1)] d obtain a b c where "d = Node ''Command'' a b [c]"
    and "name c \<in> set named \<and> score c = 0 \<or> name c = ''ErrorInvalid'' \<and> score c = - 10"
    by auto
  then show ?thesis by (auto simp: tag_def dynamicPrecedence_def)
qed

lemma ErrorInvalid_not_named: "''ErrorInvalid'' \<notin> set named"
  by (simp add: named_def)

subsection \<open>Evaluation on concrete statements\<close>

lemmas rule_defs = ListAccess_def Print_def Ask_def AssignList_def Assign_def Sleep_def Add_def
  Remove_def Clear_def Play_def Forward_def Turn_def Color_def Turtle_def ErrorInvalid_def
  Command_def Program_def Op_def kw_def
lemmas comb_defs = tk_def seq_def alt_def opt_def rep1_def rep0_def node_def spanFrom_def
  spanTo_def leaf_def complete_def
lemmas resolve_defs = resolve_def readings_def specializeKeyword_def extendKeyword_def
  specialized_def extended_def en_def retag_def ascii_def

lemma map_weak_cong: "xs = ys \<Longrightarrow> map f xs = map f ys" by simp
lemma filter_weak_cong: "xs = ys \<Longrightarrow> filter P xs = filter P ys" by simp


subsection \<open>Precedence of the named shapes\<close>

lemma print_hello_derivations:
  "derivations Command en [Token Text 0 5 (ascii ''print''), Token Text 6 11 (ascii ''hello'')] =
     [Node ''Command'' 0 11 [Node ''Print'' 0 11 [Node ''print'' 0 5 [], Node ''Text'' 6 11 []]],
      Node ''Command'' 0 11 [Node ''ErrorInvalid'' 0 11 [Node ''Text'' 0 5 [], Node ''Text'' 6 11 []]]]"
  apply (simp add: derivations_def resolve_defs)
  apply (simp add: rule_defs comb_defs cong: map_weak_cong filter_weak_cong)
  done


text \<open>
  Claim C1. When a statement has a parse as one of the named command shapes and a parse
  as \<open>ErrorInvalid\<close>, the parser returns the named parse, does not return the
  \<open>ErrorInvalid\<close> parse, and everything it returns is a named shape.
\<close>

theorem named_shape_wins:
  "d \<in> set (derivations Command kt toks) \<and> tag d \<in> set named \<and>
   e \<in> set (derivations Command kt toks) \<and> tag e = ''ErrorInvalid'' \<longrightarrow>
     d \<in> set (parseCommand kt toks) \<and> e \<notin> set (parseCommand kt toks) \<and>
     (\<forall>r \<in> set (parseCommand kt toks). tag r \<in> set named)"
proof (intro impI, elim conjE)
  assume d: "d \<in> set (derivations Command kt toks)" and nd: "tag d \<in> set named"
    and e: "e \<in> set (derivations Command kt toks)" and te: "tag e = ''ErrorInvalid''"
  from derivation_score [OF d] nd ErrorInvalid_not_named have sd: "score d = 0" by auto
  from derivation_score [OF e] te ErrorInvalid_not_named have se: "score e = - 10" by auto
  have le: "score x \<le> 0" if "x \<in> set (derivations Command kt toks)" for x
    using derivation_score [OF that] by auto
  have best: "x \<in> set (parseCommand kt toks) \<longleftrightarrow>
      x \<in> set (derivations Command kt toks) \<and> score x = 0" for x
  proof
    assume "x \<in> set (parseCommand kt toks)"
    then have x: "x \<in> set (derivations Command kt toks)"
      and "\<forall>y \<in> set (derivations Command kt toks). score y \<le> score x"
      by (auto simp: parseCommand_def best_def)
    with d sd have "0 \<le> score x" by auto
    with le [OF x] x show "x \<in> set (derivations Command kt toks) \<and> score x = 0" by simp
  next
    assume "x \<in> set (derivations Command kt toks) \<and> score x = 0"
    with le show "x \<in> set (parseCommand kt toks)" by (auto simp: parseCommand_def best_def)
  qed
  have "\<forall>r \<in> set (parseCommand kt toks). tag r \<in> set named"
  proof
    fix r assume "r \<in> set (parseCommand kt toks)"
    then have "r \<in> set (derivations Command kt toks)" and "score r = 0" using best by auto
    with derivation_score [of r kt toks] show "tag r \<in> set named" by auto
  qed
  moreover from best d sd have "d \<in> set (parseCommand kt toks)" by simp
  moreover from best se have "e \<notin> set (parseCommand kt toks)" by simp
  ultimately show "d \<in> set (parseCommand kt toks) \<and> e \<notin> set (parseCommand kt toks) \<and>
     (\<forall>r \<in> set (parseCommand kt toks). tag r \<in> set named)" by simp
qed

theorem named_shape_wins_witness:
  "Node ''Command'' 0 11 [Node ''Print'' 0 11 [Node ''print'' 0 5 [], Node ''Text'' 6 11 []]]
     \<in> set (derivations Command en [Token Text 0 5 (ascii ''print''), Token Text 6 11 (ascii ''hello'')]) \<and>
   Node ''Command'' 0 11 [Node ''ErrorInvalid'' 0 11 [Node ''Text'' 0 5 [], Node ''Text'' 6 11 []]]
     \<in> set (derivations Command en [Token Text 0 5 (ascii ''print''), Token Text 6 11 (ascii ''hello'')]) \<and>
   Node ''Command'' 0 11 [Node ''Print'' 0 11 [Node ''print'' 0 5 [], Node ''Text'' 6 11 []]]
     \<in> set (parseCommand en [Token Text 0 5 (ascii ''print''), Token Text 6 11 (ascii ''hello'')]) \<and>
   Node ''Command'' 0 11 [Node ''ErrorInvalid'' 0 11 [Node ''Text'' 0 5 [], Node ''Text'' 6 11 []]]
     \<notin> set (parseCommand en [Token Text 0 5 (ascii ''print''), Token Text 6 11 (ascii ''hello'')])"
  using named_shape_wins [of
      "Node ''Command'' 0 11 [Node ''Print'' 0 11 [Node ''print'' 0 5 [], Node ''Text'' 6 11 []]]"
      en "[Token Text 0 5 (ascii ''print''), Token Text 6 11 (ascii ''hello'')]"
      "Node ''Command'' 0 11 [Node ''ErrorInvalid'' 0 11 [Node ''Text'' 0 5 [], Node ''Text'' 6 11 []]]"]
  unfolding print_hello_derivations
  by (simp add: tag_def named_def)


subsection \<open>List separators\<close>

lemma assign_list_tokens:
  assumes "s1 \<in> set commas" and "s2 \<in> set commas"
  shows "tokenize (ascii ''a is 1'' @ [s1] @ ascii ''2'' @ [s2] @ ascii ''3'') =
    [Token Text 0 1 [0x61], Token space 1 2 [0x20], Token Text 2 4 [0x69, 0x73],
         Token space 4 5 [0x20], Token Text 5 6 [0x31], Token Comma 6 7 [s1],
         Token Text 7 8 [0x32], Token Comma 8 9 [s2], Token Text 9 10 [0x33]]"
proof -
  have tc: "textChar 0x61" "textChar 0x69" "textChar 0x73" "textChar 0x31" "textChar 0x32"
     "textChar 0x33" "\<not> textChar 0x20"
    by (simp_all add: char_defs)
  have c1: "\<not> textChar s1" "\<not> textChar s2"
    using assms textChar_not_special(6) by blast+
  show ?thesis
    using comma_codes [OF assms(1)] comma_codes [OF assms(2)] assms
    by (simp add: tokenize_def ascii_def nextToken_def matchToken_Cons tc c1)
qed

text \<open>
  Claim C3. With the English keywords, \<open>a is 1,2,3\<close> parses to the same \<open>AssignList\<close> node
  with the three elements \<open>1\<close>, \<open>2\<close>, \<open>3\<close> whichever of the four commas stands at each
  of the two separator positions, the same one twice or two different ones.
\<close>

theorem comma_variants:
  "\<forall>s1 \<in> set commas. \<forall>s2 \<in> set commas.
     parseProgram en (ascii ''a is 1'' @ [s1] @ ascii ''2'' @ [s2] @ ascii ''3'') =
       [Node ''Program'' 0 10 [Node ''Command'' 0 10 [Node ''AssignList'' 0 10
         [Node ''Text'' 0 1 [], Node ''is'' 2 4 [], Node ''Text'' 5 6 [], Node ''Op'' 6 7 [],
          Node ''Text'' 7 8 [], Node ''Op'' 8 9 [], Node ''Text'' 9 10 []]]]]"
proof (intro ballI)
  fix s1 s2 assume "s1 \<in> set commas" and "s2 \<in> set commas"
  then show "parseProgram en (ascii ''a is 1'' @ [s1] @ ascii ''2'' @ [s2] @ ascii ''3'') =
       [Node ''Program'' 0 10 [Node ''Command'' 0 10 [Node ''AssignList'' 0 10
         [Node ''Text'' 0 1 [], Node ''is'' 2 4 [], Node ''Text'' 5 6 [], Node ''Op'' 6 7 [],
          Node ''Text'' 7 8 [], Node ''Op'' 8 9 [], Node ''Text'' 9 10 []]]]]"
    apply (simp only: parseProgram_def assign_list_tokens)
    apply (simp add: skip_def derivations_def resolve_defs)
    apply (simp add: rule_defs comb_defs cong: map_weak_cong filter_weak_cong)
    apply (simp add: best_def dynamicPrecedence_def)
    done
qed

theorem comma_variants_witness:
  "0x60C \<in> set commas \<and> 0x3001 \<in> set commas \<and>
   parseProgram en (ascii ''a is 1'' @ [0x60C] @ ascii ''2'' @ [0x3001] @ ascii ''3'') =
       [Node ''Program'' 0 10 [Node ''Command'' 0 10 [Node ''AssignList'' 0 10
         [Node ''Text'' 0 1 [], Node ''is'' 2 4 [], Node ''Text'' 5 6 [], Node ''Op'' 6 7 [],
          Node ''Text'' 7 8 [], Node ''Op'' 8 9 [], Node ''Text'' 9 10 []]]]]"
  using comma_variants [THEN bspec, THEN bspec, of "0x60C" "0x3001"]
  by (simp add: commas_def)

subsection \<open>List access\<close>

text \<open>
  Claim C5 as stated fails: \<open>ListAccess\<close> is not among the alternatives of \<open>Command\<close>.
  The statement \<open>scores at random\<close> reaches the grammar as a \<open>Text\<close> token followed by
  the keywords \<open>at\<close> and \<open>random\<close>, and no statement, this one included, parses to a
  command of the shape \<open>ListAccess\<close>.
\<close>

theorem standalone_list_access:
  "resolve en (skip (tokenize (ascii ''scores at random''))) =
     [[Token Text 0 6 (ascii ''scores''), Token (Keyword ''at'') 7 9 (ascii ''at''),
       Token (Keyword ''random'') 10 16 (ascii ''random'')]] \<and>
   (\<forall>kt toks. ''ListAccess'' \<notin> tag ` set (derivations Command kt toks))"
proof
  show "resolve en (skip (tokenize (ascii ''scores at random''))) =
     [[Token Text 0 6 (ascii ''scores''), Token (Keyword ''at'') 7 9 (ascii ''at''),
       Token (Keyword ''random'') 10 16 (ascii ''random'')]]"
    apply (simp add: lex_eval)
    apply (simp add: skip_def resolve_defs)
    done
next
  show "\<forall>kt toks. ''ListAccess'' \<notin> tag ` set (derivations Command kt toks)"
  proof (intro allI notI)
    fix kt toks assume "''ListAccess'' \<in> tag ` set (derivations Command kt toks)"
    then obtain d where "d \<in> set (derivations Command kt toks)" and "tag d = ''ListAccess''"
      by auto
    with derivation_score [of d kt toks] show False by (auto simp: named_def)
  qed
qed

text \<open>
  Claim C5, as amended. \<open>ListAccess\<close> is an argument of a command: as the value of an
  assignment, \<open>scores at random\<close> and \<open>scores at 2\<close> each parse to a \<open>ListAccess\<close> node
  on the variable \<open>scores\<close>, and the two nodes differ only in the index slot, the
  \<open>random\<close> keyword or a \<open>Text\<close> token.
\<close>

theorem list_access_argument:
  "parseProgram en (ascii ''x is scores at random'') =
     [Node ''Program'' 0 21 [Node ''Command'' 0 21 [Node ''Assign'' 0 21
        [Node ''Text'' 0 1 [], Node ''is'' 2 4 [],
         Node ''ListAccess'' 5 21
           [Node ''Text'' 5 11 [], Node ''at'' 12 14 [], Node ''random'' 15 21 []]]]]] \<and>
   parseProgram en (ascii ''x is scores at 2'') =
     [Node ''Program'' 0 16 [Node ''Command'' 0 16 [Node ''Assign'' 0 16
        [Node ''Text'' 0 1 [], Node ''is'' 2 4 [],
         Node ''ListAccess'' 5 16
           [Node ''Text'' 5 11 [], Node ''at'' 12 14 [], Node ''Text'' 15 16 []]]]]]"
  apply (simp add: parseProgram_def lex_eval)
  apply (simp add: skip_def derivations_def resolve_defs)
  apply (simp add: rule_defs comb_defs cong: map_weak_cong filter_weak_cong)
  apply (simp add: best_def dynamicPrecedence_def)
  done

subsection \<open>Keyword tables\<close>

lemma lexFrom_step:
  "matchToken inp = Some (k, n) \<Longrightarrow>
   lexFrom pos inp = Token k pos (pos + n) (take n inp) # lexFrom (pos + n) (drop n inp)"
  by (cases inp) (simp_all add: matchToken_Nil nextToken_def)

lemma tokenize_word_space:
  assumes w: "w \<noteq> []" "\<forall>c \<in> set w. textChar c"
  shows "lexFrom pos (w @ 0x20 # rest) =
    Token Text pos (pos + length w) w #
    Token space (pos + length w) (pos + length w + 1) [0x20] #
    lexFrom (pos + length w + 1) rest"
proof -
  from w obtain c cs where wc: "w = c # cs" by (cases w) auto
  have sp: "\<not> textChar 0x20" using textChar_not_special(3) by blast
  have tw: "takeWhile textChar (cs @ 0x20 # rest) = cs"
    using w(2) sp by (simp add: wc takeWhile_append2)
  have c: "textChar c" "c \<noteq> 0x23" "c \<noteq> 0x0A"
    using w(2) textChar_not_special(1,2) [of c] by (auto simp: wc)
  have m: "matchToken (w @ 0x20 # rest) = Some (Text, length w)"
    using c by (simp add: wc matchToken_Cons tw)
  have m2: "matchToken (0x20 # rest) = Some (space, 1)"
    using sp by (simp add: matchToken_Cons)
  have 1: "lexFrom pos (w @ 0x20 # rest) =
     Token Text pos (pos + length w) w # lexFrom (pos + length w) (0x20 # rest)"
    using lexFrom_step [OF m, of pos] by (simp del: lexFrom.simps)
  have 2: "lexFrom (pos + length w) (0x20 # rest) =
     Token space (pos + length w) (pos + length w + 1) [0x20] # lexFrom (pos + length w + 1) rest"
    using lexFrom_step [OF m2, of "pos + length w"] by (simp del: lexFrom.simps)
  show ?thesis unfolding 1 2 ..
qed

lemma print_hi:
  assumes "spells kt ''print'' w"
  shows "parseProgram kt (w @ [0x20, 0x22, 0x68, 0x69, 0x22]) =
     [Node ''Program'' 0 (length w + 5) [Node ''Command'' 0 (length w + 5)
            [Node ''Print'' 0 (length w + 5)
               [Node ''print'' 0 (length w) [], Node ''String'' (length w + 1) (length w + 5) []]]]]"
proof -
  from assms have w: "w \<noteq> []" "\<forall>c \<in> set w. textChar c" and p: "w \<in> set (kt ''print'')"
    and o: "w \<notin> set (kt ''ask'')" "w \<notin> set (kt ''at'')" "w \<notin> set (kt ''random'')"
    by (auto simp: spells_def specialized_def)
  have q: "matchQuoted 0x22 [0x22, 0x68, 0x69, 0x22] = Some 4"
    by (simp add: matchQuoted_def)
  have s: "lexFrom (length w + 1) [0x22, 0x68, 0x69, 0x22] =
     [Token String (length w + 1) (length w + 5) [0x22, 0x68, 0x69, 0x22]]"
    using textChar_not_special(4) [of "0x22"] by (auto simp: nextToken_def matchToken_Cons q)
  have t: "tokenize (w @ [0x20, 0x22, 0x68, 0x69, 0x22]) =
     [Token Text 0 (length w) w, Token space (length w) (length w + 1) [0x20],
          Token String (length w + 1) (length w + 5) [0x22, 0x68, 0x69, 0x22]]"
    unfolding tokenize_def using tokenize_word_space [OF w, of 0 "[0x22, 0x68, 0x69, 0x22]"] s
    by simp
  have sk: "specializeKeyword kt w = None" using o by (simp add: specializeKeyword_def specialized_def)
  have ek: "extendKeyword kt w = Some ''print''" using p by (simp add: extendKeyword_def extended_def)
  show ?thesis
    apply (simp only: parseProgram_def t)
    apply (simp add: skip_def derivations_def resolve_def readings_def retag_def sk ek)
    apply (simp add: rule_defs comb_defs cong: map_weak_cong filter_weak_cong)
    apply (simp add: best_def dynamicPrecedence_def)
    done
qed

text \<open>
  Claim C8. For any two keyword tables that each map the role \<open>print\<close> to a spelling, the
  statement made of that spelling, a space and \<open>"hi"\<close> parses under its own table to a
  \<open>Print\<close> command with the one argument token \<open>String\<close>: the two trees differ only in
  the offsets that the length of the spelling shifts.
\<close>

theorem print_any_locale:
  "spells kt1 ''print'' w1 \<and> spells kt2 ''print'' w2 \<longrightarrow>
     parseProgram kt1 (w1 @ [0x20, 0x22, 0x68, 0x69, 0x22]) =
       [Node ''Program'' 0 (length w1 + 5) [Node ''Command'' 0 (length w1 + 5)
              [Node ''Print'' 0 (length w1 + 5)
                 [Node ''print'' 0 (length w1) [],
                  Node ''String'' (length w1 + 1) (length w1 + 5) []]]]] \<and>
     parseProgram kt2 (w2 @ [0x20, 0x22, 0x68, 0x69, 0x22]) =
       [Node ''Program'' 0 (length w2 + 5) [Node ''Command'' 0 (length w2 + 5)
              [Node ''Print'' 0 (length w2 + 5)
                 [Node ''print'' 0 (length w2) [],
                  Node ''String'' (length w2 + 1) (length w2 + 5) []]]]]"
  using print_hi by blast

theorem print_any_locale_witness:
  "spells en ''print'' (ascii ''print'') \<and>
   spells (\<lambda>r. if r = ''print'' then [ascii ''imprimir''] else []) ''print'' (ascii ''imprimir'') \<and>
   parseProgram en (ascii ''print'' @ [0x20, 0x22, 0x68, 0x69, 0x22]) =
       [Node ''Program'' 0 10 [Node ''Command'' 0 10 [Node ''Print'' 0 10
              [Node ''print'' 0 5 [], Node ''String'' 6 10 []]]]] \<and>
   parseProgram (\<lambda>r. if r = ''print'' then [ascii ''imprimir''] else [])
       (ascii ''imprimir'' @ [0x20, 0x22, 0x68, 0x69, 0x22]) =
       [Node ''Program'' 0 13 [Node ''Command'' 0 13 [Node ''Print'' 0 13
              [Node ''print'' 0 8 [], Node ''String'' 9 13 []]]]]"
proof -
  have a: "spells en ''print'' (ascii ''print'')"
    by (simp add: spells_def en_def specialized_def extended_def ascii_def char_defs)
  have b: "spells (\<lambda>r. if r = ''print'' then [ascii ''imprimir''] else []) ''print'' (ascii ''imprimir'')"
    by (simp add: spells_def specialized_def extended_def ascii_def char_defs)
  from print_any_locale [of en "ascii ''print''"
      "\<lambda>r. if r = ''print'' then [ascii ''imprimir''] else []" "ascii ''imprimir''"] a b
  show ?thesis by (simp add: ascii_def)
qed


subsection \<open>The fallback shape\<close>





lemma in_rep_tk:
  "(ts, r) \<in> set (rep n (tk k) inp) \<Longrightarrow>
     \<exists>w. inp = w @ r \<and> w \<noteq> [] \<and> (\<forall>t \<in> set w. kind t = k) \<and> ts = concat (map leaf w)"
proof (induction n arbitrary: inp ts)
  case 0 then show ?case by simp
next
  case (Suc n)
  from Suc.prems obtain ts1 m where a: "(ts1, m) \<in> set (tk k inp)"
    and b: "ts = ts1 \<and> r = m \<or> (\<exists>ts2. (ts2, r) \<in> set (rep n (tk k) m) \<and> ts = ts1 @ ts2)"
    unfolding in_rep_Suc by blast
  from a obtain t where t: "inp = t # m" "kind t = k" "ts1 = leaf t" unfolding in_tk by blast
  from b show ?case
  proof
    assume "ts = ts1 \<and> r = m"
    with t have "inp = [t] @ r \<and> [t] \<noteq> [] \<and> (\<forall>x \<in> set [t]. kind x = k) \<and> ts = concat (map leaf [t])"
      by simp
    then show ?thesis by blast
  next
    assume "\<exists>ts2. (ts2, r) \<in> set (rep n (tk k) m) \<and> ts = ts1 @ ts2"
    then obtain ts2 where c: "(ts2, r) \<in> set (rep n (tk k) m)" and d: "ts = ts1 @ ts2" by blast
    from Suc.IH [OF c] obtain w where w: "m = w @ r" "w \<noteq> []" "\<forall>t \<in> set w. kind t = k"
      "ts2 = concat (map leaf w)" by blast
    with t d have "inp = (t # w) @ r \<and> t # w \<noteq> [] \<and> (\<forall>x \<in> set (t # w). kind x = k) \<and>
       ts = concat (map leaf (t # w))" by simp
    then show ?thesis by blast
  qed
qed

lemma in_rep1_tk:
  "(ts, r) \<in> set (rep1 (tk k) inp) \<Longrightarrow>
     \<exists>w. inp = w @ r \<and> w \<noteq> [] \<and> (\<forall>t \<in> set w. kind t = k) \<and> ts = concat (map leaf w)"
  unfolding rep1_def by (rule in_rep_tk)








lemma resolve_Nil: "resolve kt [] = [[]]"
  by (simp add: resolve_def)

lemma in_resolve_Cons:
  "rd \<in> set (resolve kt (t # ts)) \<longleftrightarrow>
     (\<exists>x xs. rd = x # xs \<and> x \<in> set (readings kt t) \<and> xs \<in> set (resolve kt ts))"
  by (auto simp: resolve_def)










subsection \<open>Runs of keywords\<close>

lemma stableD: "stable p \<Longrightarrow> (ts, r) \<in> set (p inp) \<Longrightarrow> \<exists>w. inp = w @ r \<and> lang p w"
  unfolding stable_def by blast

lemma stableI:
  assumes "\<And>inp ts r. (ts, r) \<in> set (p inp) \<Longrightarrow> \<exists>w. inp = w @ r \<and> lang p w"
  shows "stable p"
  using assms unfolding stable_def by blast

lemma langD: "lang p w \<Longrightarrow> \<exists>ts. (ts, r) \<in> set (p (w @ r))"
  unfolding lang_def by blast

lemma lang_complete: "stable p \<Longrightarrow> (ts, []) \<in> set (p w) \<Longrightarrow> lang p w"
  using stableD [of p ts "[]" w] by simp

lemma pumpsD:
  "pumps p \<Longrightarrow> lang p (pre @ k # post) \<Longrightarrow> kind k = Keyword r \<Longrightarrow> kind k' = Keyword r \<Longrightarrow>
     lang p (pre @ k # k' # post)"
  unfolding pumps_def by blast

text \<open>A single token.\<close>

lemma lang_tk: "lang (tk k) w \<longleftrightarrow> (\<exists>t. w = [t] \<and> kind t = k)"
proof
  assume "lang (tk k) w"
  from langD [OF this, of "[]"] show "\<exists>t. w = [t] \<and> kind t = k" unfolding in_tk by auto
next
  assume "\<exists>t. w = [t] \<and> kind t = k"
  then show "lang (tk k) w" unfolding lang_def in_tk by auto
qed

lemma stable_tk: "stable (tk k)"
proof (rule stableI)
  fix inp ts r assume "(ts, r) \<in> set (tk k inp)"
  then obtain t where "inp = [t] @ r" "kind t = k" unfolding in_tk by auto
  then show "\<exists>w. inp = w @ r \<and> lang (tk k) w" unfolding lang_tk by blast
qed

lemma consuming_tk: "consuming (tk k)"
  unfolding consuming_def lang_tk by auto

lemma pumps_tk: "\<forall>r. k \<noteq> Keyword r \<Longrightarrow> pumps (tk k)"
proof -
  assume nk: "\<forall>r. k \<noteq> Keyword r"
  have "\<not> (lang (tk k) (pre @ x # post) \<and> kind x = Keyword r)" for pre x post r
  proof
    assume a: "lang (tk k) (pre @ x # post) \<and> kind x = Keyword r"
    then obtain t where "pre @ x # post = [t]" "kind t = k" unfolding lang_tk by blast
    then have "x = t" by (cases pre) auto
    with a \<open>kind t = k\<close> nk show False by auto
  qed
  then show ?thesis unfolding pumps_def by blast
qed

text \<open>A run of one kind of token.\<close>

lemma rep_tk_accepts:
  "w \<noteq> [] \<Longrightarrow> \<forall>t \<in> set w. kind t = k \<Longrightarrow> length w \<le> n \<Longrightarrow>
     (concat (map leaf w), r) \<in> set (rep n (tk k) (w @ r))"
proof (induction w arbitrary: n)
  case Nil then show ?case by simp
next
  case (Cons t w)
  then obtain n' where n: "n = Suc n'" by (cases n) auto
  from Cons.prems have k: "kind t = k" by simp
  have hd: "(leaf t, w @ r) \<in> set (tk k ((t # w) @ r))" using k unfolding in_tk by simp
  show ?case
  proof (cases "w = []")
    case True
    with hd show ?thesis unfolding n in_rep_Suc by auto
  next
    case False
    from Cons.prems n have "\<forall>t \<in> set w. kind t = k" "length w \<le> n'" by auto
    from Cons.IH [OF False this] have "(concat (map leaf w), r) \<in> set (rep n' (tk k) (w @ r))" .
    with hd show ?thesis unfolding n in_rep_Suc by auto
  qed
qed

lemma lang_rep1_tk: "lang (rep1 (tk k)) w \<longleftrightarrow> w \<noteq> [] \<and> (\<forall>t \<in> set w. kind t = k)"
proof
  assume "lang (rep1 (tk k)) w"
  from langD [OF this, of "[]"] obtain ts where "(ts, []) \<in> set (rep1 (tk k) w)" by auto
  from in_rep1_tk [OF this] show "w \<noteq> [] \<and> (\<forall>t \<in> set w. kind t = k)" by auto
next
  assume a: "w \<noteq> [] \<and> (\<forall>t \<in> set w. kind t = k)"
  show "lang (rep1 (tk k)) w"
    unfolding lang_def rep1_def
  proof
    fix r
    have "(concat (map leaf w), r) \<in> set (rep (length (w @ r)) (tk k) (w @ r))"
      using a by (intro rep_tk_accepts) auto
    then show "\<exists>ts. (ts, r) \<in> set (rep (length (w @ r)) (tk k) (w @ r))" by blast
  qed
qed

lemma stable_rep1_tk: "stable (rep1 (tk k))"
proof (rule stableI)
  fix inp ts r assume "(ts, r) \<in> set (rep1 (tk k) inp)"
  from in_rep1_tk [OF this] show "\<exists>w. inp = w @ r \<and> lang (rep1 (tk k)) w"
    unfolding lang_rep1_tk by blast
qed

lemma consuming_rep1_tk: "consuming (rep1 (tk k))"
  unfolding consuming_def lang_rep1_tk by blast

lemma pumps_rep1_tk: "pumps (rep1 (tk k))"
  unfolding pumps_def lang_rep1_tk by auto

text \<open>Sequence.\<close>

lemma lang_seqI: "lang p w1 \<Longrightarrow> lang q w2 \<Longrightarrow> lang (seq p q) (w1 @ w2)"
  unfolding lang_def in_seq
proof
  fix r
  assume p: "\<forall>r. \<exists>ts. (ts, r) \<in> set (p (w1 @ r))" and q: "\<forall>r. \<exists>ts. (ts, r) \<in> set (q (w2 @ r))"
  from p obtain ts1 where "(ts1, w2 @ r) \<in> set (p (w1 @ w2 @ r))" by blast
  moreover from q obtain ts2 where "(ts2, r) \<in> set (q (w2 @ r))" by blast
  ultimately show "\<exists>ts ts1 m ts2. (ts1, m) \<in> set (p ((w1 @ w2) @ r)) \<and> (ts2, r) \<in> set (q m) \<and>
      ts = ts1 @ ts2" by auto
qed

lemma in_seq_split:
  assumes "stable p" and "stable q" and "(ts, r) \<in> set (seq p q inp)"
  shows "\<exists>w1 w2. inp = (w1 @ w2) @ r \<and> lang p w1 \<and> lang q w2"
proof -
  from assms(3) obtain ts1 m ts2 where a: "(ts1, m) \<in> set (p inp)" and b: "(ts2, r) \<in> set (q m)"
    unfolding in_seq by blast
  from stableD [OF assms(1) a] obtain w1 where w1: "inp = w1 @ m" "lang p w1" by blast
  from stableD [OF assms(2) b] obtain w2 where w2: "m = w2 @ r" "lang q w2" by blast
  from w1 w2 show ?thesis by auto
qed

lemma stable_seq: "stable p \<Longrightarrow> stable q \<Longrightarrow> stable (seq p q)"
proof (rule stableI)
  fix inp ts r
  assume "stable p" "stable q" "(ts, r) \<in> set (seq p q inp)"
  from in_seq_split [OF this] obtain w1 w2 where "inp = (w1 @ w2) @ r" "lang p w1" "lang q w2"
    by blast
  with lang_seqI show "\<exists>w. inp = w @ r \<and> lang (seq p q) w" by blast
qed

lemma lang_seqD:
  assumes "stable p" and "stable q" and "lang (seq p q) w"
  shows "\<exists>w1 w2. w = w1 @ w2 \<and> lang p w1 \<and> lang q w2"
proof -
  from langD [OF assms(3), of "[]"] obtain ts where "(ts, []) \<in> set (seq p q w)" by auto
  from in_seq_split [OF assms(1,2) this] show ?thesis by auto
qed

lemma split_at_token:
  assumes "w1 @ w2 = pre @ k # post"
  shows "(\<exists>b. w1 = pre @ k # b \<and> post = b @ w2) \<or> (\<exists>a. pre = w1 @ a \<and> w2 = a @ k # post)"
  using assms by (auto simp: append_eq_append_conv2 append_eq_Cons_conv Cons_eq_append_conv)

lemma pumps_seq:
  assumes sp: "stable p" and sq: "stable q" and pp: "pumps p" and pq: "pumps q"
  shows "pumps (seq p q)"
  unfolding pumps_def
proof (intro allI impI, elim conjE)
  fix pre k k' post r
  assume l: "lang (seq p q) (pre @ k # post)" and k: "kind k = Keyword r" "kind k' = Keyword r"
  from lang_seqD [OF sp sq l] obtain w1 w2 where w: "w1 @ w2 = pre @ k # post"
    and l1: "lang p w1" and l2: "lang q w2" by metis
  from split_at_token [OF w] show "lang (seq p q) (pre @ k # k' # post)"
  proof
    assume "\<exists>b. w1 = pre @ k # b \<and> post = b @ w2"
    then obtain b where b: "w1 = pre @ k # b" "post = b @ w2" by blast
    from pumpsD [OF pp l1 [unfolded b(1)] k] have "lang p (pre @ k # k' # b)" .
    from lang_seqI [OF this l2] b(2) show ?thesis by simp
  next
    assume "\<exists>a. pre = w1 @ a \<and> w2 = a @ k # post"
    then obtain a where a: "pre = w1 @ a" "w2 = a @ k # post" by blast
    from pumpsD [OF pq l2 [unfolded a(2)] k] have "lang q (a @ k # k' # post)" .
    from lang_seqI [OF l1 this] a(1) show ?thesis by simp
  qed
qed

lemma consuming_seq: "stable p \<Longrightarrow> stable q \<Longrightarrow> consuming p \<Longrightarrow> consuming (seq p q)"
  unfolding consuming_def using lang_seqD by fastforce

text \<open>Choice, option, node.\<close>

lemma lang_alt: "stable p \<Longrightarrow> stable q \<Longrightarrow> lang (alt p q) w \<longleftrightarrow> lang p w \<or> lang q w"
proof
  assume s: "stable p" "stable q" and "lang (alt p q) w"
  from langD [OF this(3), of "[]"] obtain ts where "(ts, []) \<in> set (p w) \<or> (ts, []) \<in> set (q w)"
    unfolding in_alt by auto
  with lang_complete s show "lang p w \<or> lang q w" by blast
next
  assume "lang p w \<or> lang q w"
  then show "lang (alt p q) w" unfolding lang_def in_alt by blast
qed

lemma stable_alt: "stable p \<Longrightarrow> stable q \<Longrightarrow> stable (alt p q)"
proof (rule stableI)
  fix inp ts r
  assume s: "stable p" "stable q" and a: "(ts, r) \<in> set (alt p q inp)"
  from a have "(ts, r) \<in> set (p inp) \<or> (ts, r) \<in> set (q inp)" unfolding in_alt .
  with stableD [OF s(1)] stableD [OF s(2)] have "\<exists>w. inp = w @ r \<and> (lang p w \<or> lang q w)"
    by blast
  then show "\<exists>w. inp = w @ r \<and> lang (alt p q) w" unfolding lang_alt [OF s] .
qed

lemma pumps_alt: "stable p \<Longrightarrow> stable q \<Longrightarrow> pumps p \<Longrightarrow> pumps q \<Longrightarrow> pumps (alt p q)"
  unfolding pumps_def by (simp add: lang_alt) blast

lemma consuming_alt: "stable p \<Longrightarrow> stable q \<Longrightarrow> consuming p \<Longrightarrow> consuming q \<Longrightarrow> consuming (alt p q)"
  unfolding consuming_def by (auto simp: lang_alt)

lemma lang_opt: "stable p \<Longrightarrow> lang (opt p) w \<longleftrightarrow> lang p w \<or> w = []"
proof
  assume s: "stable p" and "lang (opt p) w"
  from langD [OF this(2), of "[]"] obtain ts where "(ts, []) \<in> set (p w) \<or> w = []"
    unfolding in_opt by auto
  with lang_complete [OF s] show "lang p w \<or> w = []" by blast
next
  assume "lang p w \<or> w = []"
  then show "lang (opt p) w" unfolding lang_def in_opt by auto
qed

lemma stable_opt: "stable p \<Longrightarrow> stable (opt p)"
proof (rule stableI)
  fix inp ts r
  assume s: "stable p" and a: "(ts, r) \<in> set (opt p inp)"
  from a have "(ts, r) \<in> set (p inp) \<or> r = inp" unfolding in_opt by blast
  then have "\<exists>w. inp = w @ r \<and> (lang p w \<or> w = [])"
  proof
    assume "(ts, r) \<in> set (p inp)"
    from stableD [OF s this] show ?thesis by blast
  next
    assume "r = inp"
    then have "inp = [] @ r \<and> (lang p [] \<or> [] = ([] :: token list))" by simp
    then show ?thesis by blast
  qed
  then show "\<exists>w. inp = w @ r \<and> lang (opt p) w" unfolding lang_opt [OF s] .
qed

lemma pumps_opt: "stable p \<Longrightarrow> pumps p \<Longrightarrow> pumps (opt p)"
  unfolding pumps_def by (simp add: lang_opt)

lemma lang_node: "lang (node n p) w \<longleftrightarrow> lang p w"
  unfolding lang_def in_node by blast

lemma stable_node: "stable p \<Longrightarrow> stable (node n p)"
  unfolding stable_def lang_node in_node by blast

lemma pumps_node: "pumps p \<Longrightarrow> pumps (node n p)"
  unfolding pumps_def lang_node .

lemma consuming_node: "consuming p \<Longrightarrow> consuming (node n p)"
  unfolding consuming_def lang_node .

text \<open>Repetition.\<close>

lemma rep_sound:
  "stable p \<Longrightarrow> (ts, r) \<in> set (rep n p inp) \<Longrightarrow>
     \<exists>ws. ws \<noteq> [] \<and> inp = concat ws @ r \<and> (\<forall>x \<in> set ws. lang p x)"
proof (induction n arbitrary: inp ts)
  case 0 then show ?case by simp
next
  case (Suc n)
  from Suc.prems(2) obtain ts1 m where a: "(ts1, m) \<in> set (p inp)"
    and b: "ts = ts1 \<and> r = m \<or> (\<exists>ts2. (ts2, r) \<in> set (rep n p m) \<and> ts = ts1 @ ts2)"
    unfolding in_rep_Suc by blast
  from stableD [OF Suc.prems(1) a] obtain w where w: "inp = w @ m" "lang p w" by blast
  from b show ?case
  proof
    assume "ts = ts1 \<and> r = m"
    with w have "[w] \<noteq> [] \<and> inp = concat [w] @ r \<and> (\<forall>x \<in> set [w]. lang p x)" by simp
    then show ?thesis by blast
  next
    assume "\<exists>ts2. (ts2, r) \<in> set (rep n p m) \<and> ts = ts1 @ ts2"
    then obtain ts2 where "(ts2, r) \<in> set (rep n p m)" by blast
    from Suc.IH [OF Suc.prems(1) this] obtain ws where "ws \<noteq> []" "m = concat ws @ r"
      "\<forall>x \<in> set ws. lang p x" by blast
    with w have "w # ws \<noteq> [] \<and> inp = concat (w # ws) @ r \<and> (\<forall>x \<in> set (w # ws). lang p x)"
      by simp
    then show ?thesis by blast
  qed
qed

lemma rep_complete:
  "ws \<noteq> [] \<Longrightarrow> \<forall>x \<in> set ws. lang p x \<Longrightarrow> length ws \<le> n \<Longrightarrow>
     \<exists>ts. (ts, r) \<in> set (rep n p (concat ws @ r))"
proof (induction ws arbitrary: n)
  case Nil then show ?case by simp
next
  case (Cons w ws)
  then obtain n' where n: "n = Suc n'" by (cases n) auto
  from Cons.prems have "lang p w" by simp
  from langD [OF this, of "concat ws @ r"]
  obtain ts1 where hd: "(ts1, concat ws @ r) \<in> set (p (concat (w # ws) @ r))" by auto
  show ?case
  proof (cases "ws = []")
    case True
    with hd show ?thesis unfolding n in_rep_Suc by auto
  next
    case False
    from Cons.prems n have "\<forall>x \<in> set ws. lang p x" "length ws \<le> n'" by auto
    from Cons.IH [OF False this] obtain ts2 where "(ts2, r) \<in> set (rep n' p (concat ws @ r))"
      by blast
    with hd show ?thesis unfolding n in_rep_Suc by blast
  qed
qed

lemma length_concat_ge: "\<forall>x \<in> set ws. x \<noteq> [] \<Longrightarrow> length ws \<le> length (concat ws)"
proof (induction ws)
  case Nil show ?case by simp
next
  case (Cons w ws)
  then have "w \<noteq> []" and l: "length ws \<le> length (concat ws)" by auto
  then obtain x xs where "w = x # xs" by (cases w) auto
  with l show ?case by simp
qed

lemma lang_rep1:
  assumes "stable p" and "consuming p"
  shows "lang (rep1 p) w \<longleftrightarrow> (\<exists>ws. ws \<noteq> [] \<and> w = concat ws \<and> (\<forall>x \<in> set ws. lang p x))"
proof
  assume "lang (rep1 p) w"
  from langD [OF this, of "[]"] obtain ts where "(ts, []) \<in> set (rep (length w) p w)"
    unfolding rep1_def by auto
  from rep_sound [OF assms(1) this]
  show "\<exists>ws. ws \<noteq> [] \<and> w = concat ws \<and> (\<forall>x \<in> set ws. lang p x)" by auto
next
  assume "\<exists>ws. ws \<noteq> [] \<and> w = concat ws \<and> (\<forall>x \<in> set ws. lang p x)"
  then obtain ws where ws: "ws \<noteq> []" "w = concat ws" "\<forall>x \<in> set ws. lang p x" by blast
  from ws(3) assms(2) have "\<forall>x \<in> set ws. x \<noteq> []" unfolding consuming_def by blast
  from length_concat_ge [OF this] have len: "length ws \<le> length (w @ r)" for r
    unfolding ws(2) by simp
  show "lang (rep1 p) w"
    unfolding lang_def rep1_def
  proof
    fix r
    from rep_complete [OF ws(1,3) len [of r], of r]
    show "\<exists>ts. (ts, r) \<in> set (rep (length (w @ r)) p (w @ r))" unfolding ws(2) .
  qed
qed

lemma stable_rep1:
  assumes "stable p" and "consuming p"
  shows "stable (rep1 p)"
proof (rule stableI)
  fix inp ts r assume "(ts, r) \<in> set (rep1 p inp)"
  then have "(ts, r) \<in> set (rep (length inp) p inp)" unfolding rep1_def .
  from rep_sound [OF assms(1) this]
  show "\<exists>w. inp = w @ r \<and> lang (rep1 p) w" unfolding lang_rep1 [OF assms] by blast
qed

lemma consuming_rep1:
  assumes "stable p" and "consuming p"
  shows "consuming (rep1 p)"
  unfolding consuming_def lang_rep1 [OF assms]
proof (intro allI impI)
  fix w assume "\<exists>ws. ws \<noteq> [] \<and> w = concat ws \<and> (\<forall>x \<in> set ws. lang p x)"
  then obtain ws where ws: "ws \<noteq> []" "w = concat ws" "\<forall>x \<in> set ws. lang p x" by blast
  then obtain x xs where "ws = x # xs" by (cases ws) auto
  with ws assms(2) show "w \<noteq> []" unfolding consuming_def by auto
qed

lemma concat_split:
  "concat ws = pre @ k # post \<Longrightarrow>
     \<exists>ws1 a b ws2. ws = ws1 @ (a @ k # b) # ws2 \<and> pre = concat ws1 @ a \<and> post = b @ concat ws2"
proof (induction ws arbitrary: pre)
  case Nil then show ?case by simp
next
  case (Cons x ws)
  then have "x @ concat ws = pre @ k # post" by simp
  from split_at_token [OF this] show ?case
  proof
    assume "\<exists>b. x = pre @ k # b \<and> post = b @ concat ws"
    then obtain b where "x = pre @ k # b" "post = b @ concat ws" by blast
    then have "x # ws = [] @ (pre @ k # b) # ws \<and> pre = concat [] @ pre \<and> post = b @ concat ws"
      by simp
    then show ?thesis by blast
  next
    assume "\<exists>a. pre = x @ a \<and> concat ws = a @ k # post"
    then obtain a where a: "pre = x @ a" "concat ws = a @ k # post" by blast
    from Cons.IH [OF a(2)] obtain ws1 a' b ws2 where
      "ws = ws1 @ (a' @ k # b) # ws2" "a = concat ws1 @ a'" "post = b @ concat ws2" by blast
    with a(1) have "x # ws = (x # ws1) @ (a' @ k # b) # ws2 \<and> pre = concat (x # ws1) @ a' \<and>
       post = b @ concat ws2" by simp
    then show ?thesis by blast
  qed
qed

lemma pumps_rep1:
  assumes "stable p" and "consuming p" and "pumps p"
  shows "pumps (rep1 p)"
  unfolding pumps_def lang_rep1 [OF assms(1,2)]
proof (intro allI impI, elim conjE exE)
  fix pre k k' post r ws
  assume k: "kind k = Keyword r" "kind k' = Keyword r"
    and ws: "ws \<noteq> []" "pre @ k # post = concat ws" "\<forall>x \<in> set ws. lang p x"
  from concat_split [OF ws(2) [symmetric]] obtain ws1 a b ws2 where
    s: "ws = ws1 @ (a @ k # b) # ws2" "pre = concat ws1 @ a" "post = b @ concat ws2" by blast
  from ws(3) s(1) have "lang p (a @ k # b)" by simp
  from pumpsD [OF assms(3) this k] have "lang p (a @ k # k' # b)" .
  with ws(3) s(1) have "\<forall>x \<in> set (ws1 @ (a @ k # k' # b) # ws2). lang p x" by auto
  moreover have "pre @ k # k' # post = concat (ws1 @ (a @ k # k' # b) # ws2)"
    using s(2,3) by simp
  ultimately show "\<exists>ws. ws \<noteq> [] \<and> pre @ k # k' # post = concat ws \<and> (\<forall>x \<in> set ws. lang p x)"
    by blast
qed

lemma good_tk: "\<forall>r. k \<noteq> Keyword r \<Longrightarrow> good (tk k)"
  unfolding good_def using stable_tk pumps_tk by blast

lemma good_run: "good (rep1 (tk k))"
  unfolding good_def using stable_rep1_tk pumps_rep1_tk by blast

lemma good_kws: "good (rep1 (kw r))"
  unfolding kw_def by (rule good_run)

lemma good_seq: "good p \<Longrightarrow> good q \<Longrightarrow> good (seq p q)"
  unfolding good_def using stable_seq pumps_seq by blast

lemma good_alt: "good p \<Longrightarrow> good q \<Longrightarrow> good (alt p q)"
  unfolding good_def using stable_alt pumps_alt by blast

lemma good_opt: "good p \<Longrightarrow> good (opt p)"
  unfolding good_def using stable_opt pumps_opt by blast

lemma good_node: "good p \<Longrightarrow> good (node n p)"
  unfolding good_def using stable_node pumps_node by blast

lemma good_rep1: "good p \<Longrightarrow> consuming p \<Longrightarrow> good (rep1 p)"
  unfolding good_def using stable_rep1 pumps_rep1 by blast

lemmas good_intros = good_tk good_run good_kws good_seq good_alt good_opt good_node

lemma good_ListAccess: "good ListAccess"
  unfolding ListAccess_def by (intro good_intros; simp)

lemma consuming_ListAccess: "consuming ListAccess"
proof -
  have "good (tk Text)" by (intro good_intros; simp)
  moreover have "good (seq (rep1 (kw ''at'')) (alt (rep1 (kw ''random'')) (tk Text)))"
    by (intro good_intros; simp)
  ultimately show ?thesis
    unfolding ListAccess_def good_def
    by (intro consuming_node consuming_seq consuming_tk) auto
qed

lemma good_arg: "good (alt (tk String) (alt (tk Text) ListAccess))"
  by (intro good_intros good_ListAccess; simp)

lemma consuming_arg: "consuming (alt (tk String) (alt (tk Text) ListAccess))"
proof -
  have "stable (tk String)" "stable (tk Text)" "stable ListAccess"
    "stable (alt (tk Text) ListAccess)"
    using good_ListAccess stable_tk stable_alt unfolding good_def by blast+
  then show ?thesis
    by (intro consuming_alt consuming_tk consuming_ListAccess) auto
qed

lemma good_args: "good (rep1 (alt (tk String) (alt (tk Text) ListAccess)))"
  by (rule good_rep1 [OF good_arg consuming_arg])

lemma good_Op: "good (Op (tk Comma))"
  unfolding Op_def by (intro good_intros; simp)

lemma good_items: "good (rep1 (seq (Op (tk Comma)) (rep1 (tk Text))))"
proof (rule good_rep1)
  show g: "good (seq (Op (tk Comma)) (rep1 (tk Text)))"
    by (intro good_intros good_Op)
  have "stable (Op (tk Comma))" "stable (rep1 (tk Text))"
    using good_Op good_run unfolding good_def by blast+
  moreover have "consuming (Op (tk Comma))"
    unfolding Op_def by (intro consuming_node consuming_tk)
  ultimately show "consuming (seq (Op (tk Comma)) (rep1 (tk Text)))"
    by (intro consuming_seq)
qed

lemma good_rules:
  "good Assign" "good AssignList" "good Ask" "good Clear" "good Print" "good Play" "good Turtle"
  "good Sleep" "good Add" "good Remove" "good ErrorInvalid"
  unfolding Assign_def AssignList_def Ask_def Clear_def Print_def Play_def Turtle_def Forward_def
    Turn_def Color_def Sleep_def Add_def Remove_def ErrorInvalid_def
  by (intro good_intros good_ListAccess good_args good_items; simp)+

lemma rule_pump:
  assumes R: "R = node n p" and g: "good R" and c: "(ts0, []) \<in> set (R (pre @ k # post))"
    and k: "kind k = Keyword r" "kind k' = Keyword r"
  shows "\<exists>c0 ts1 c1. ts0 = [c0] \<and> name c0 = n \<and> (ts1, []) \<in> set (R (pre @ k # k' # post)) \<and>
           ts1 = [c1] \<and> name c1 = n"
proof -
  from g have s: "stable R" and p: "pumps R" unfolding good_def by auto
  from lang_complete [OF s c] have "lang R (pre @ k # post)" .
  from pumpsD [OF p this k] have "lang R (pre @ k # k' # post)" .
  from langD [OF this, of "[]"] obtain ts1 where t1: "(ts1, []) \<in> set (R (pre @ k # k' # post))"
    by auto
  from c node_result [of ts0 "[]" n p] obtain c0 where "ts0 = [c0]" "name c0 = n"
    unfolding R by fastforce
  moreover from t1 node_result [of ts1 "[]" n p] obtain c1 where "ts1 = [c1]" "name c1 = n"
    unfolding R by fastforce
  ultimately show ?thesis using t1 by blast
qed

lemma Command_pump:
  assumes k: "kind k = Keyword r" "kind k' = Keyword r"
    and d: "d \<in> set (complete Command (pre @ k # post))"
  shows "\<exists>d' \<in> set (complete Command (pre @ k # k' # post)). tag d' = tag d"
proof -
  let ?inp = "pre @ k # post" and ?inp' = "pre @ k # k' # post"
  from d obtain ts where "(ts, []) \<in> set (Command ?inp)" and dts: "d \<in> set ts"
    unfolding in_complete by blast
  then obtain ts0 where ts: "ts = [Node ''Command'' (spanFrom ?inp) (spanTo ?inp []) ts0]" and
    alts: "(ts0, []) \<in> set (Assign ?inp) \<or> (ts0, []) \<in> set (AssignList ?inp) \<or>
       (ts0, []) \<in> set (Ask ?inp) \<or> (ts0, []) \<in> set (Clear ?inp) \<or> (ts0, []) \<in> set (Print ?inp) \<or>
       (ts0, []) \<in> set (Play ?inp) \<or> (ts0, []) \<in> set (Turtle ?inp) \<or> (ts0, []) \<in> set (Sleep ?inp) \<or>
       (ts0, []) \<in> set (Add ?inp) \<or> (ts0, []) \<in> set (Remove ?inp) \<or>
       (ts0, []) \<in> set (ErrorInvalid ?inp)"
    unfolding Command_alts by blast
  from ts dts have dd: "d = Node ''Command'' (spanFrom ?inp) (spanTo ?inp []) ts0" by simp
  have step: "\<exists>d' \<in> set (complete Command ?inp'). tag d' = tag d"
    if R: "R = node n p" "good R" "(ts0, []) \<in> set (R ?inp)"
      and a: "\<And>ts1. (ts1, []) \<in> set (R ?inp') \<Longrightarrow>
            ([Node ''Command'' (spanFrom ?inp') (spanTo ?inp' []) ts1], []) \<in> set (Command ?inp')"
    for R n p
  proof -
    from rule_pump [OF R k] obtain c0 ts1 c1 where c: "ts0 = [c0]" "name c0 = n"
      "(ts1, []) \<in> set (R ?inp')" "ts1 = [c1]" "name c1 = n" by blast
    let ?d' = "Node ''Command'' (spanFrom ?inp') (spanTo ?inp' []) ts1"
    from a [OF c(3)] have "?d' \<in> set (complete Command ?inp')" unfolding in_complete by force
    moreover have "tag ?d' = tag d" unfolding dd using c by (simp add: tag_def)
    ultimately show ?thesis by blast
  qed
  from alts show ?thesis
  proof (elim disjE)
    assume "(ts0, []) \<in> set (Assign ?inp)"
    from step [OF Assign_def good_rules(1) this] show ?thesis unfolding Command_alts by blast
  next
    assume "(ts0, []) \<in> set (AssignList ?inp)"
    from step [OF AssignList_def good_rules(2) this] show ?thesis unfolding Command_alts by blast
  next
    assume "(ts0, []) \<in> set (Ask ?inp)"
    from step [OF Ask_def good_rules(3) this] show ?thesis unfolding Command_alts by blast
  next
    assume "(ts0, []) \<in> set (Clear ?inp)"
    from step [OF Clear_def good_rules(4) this] show ?thesis unfolding Command_alts by blast
  next
    assume "(ts0, []) \<in> set (Print ?inp)"
    from step [OF Print_def good_rules(5) this] show ?thesis unfolding Command_alts by blast
  next
    assume "(ts0, []) \<in> set (Play ?inp)"
    from step [OF Play_def good_rules(6) this] show ?thesis unfolding Command_alts by blast
  next
    assume "(ts0, []) \<in> set (Turtle ?inp)"
    from step [OF Turtle_def good_rules(7) this] show ?thesis unfolding Command_alts by blast
  next
    assume "(ts0, []) \<in> set (Sleep ?inp)"
    from step [OF Sleep_def good_rules(8) this] show ?thesis unfolding Command_alts by blast
  next
    assume "(ts0, []) \<in> set (Add ?inp)"
    from step [OF Add_def good_rules(9) this] show ?thesis unfolding Command_alts by blast
  next
    assume "(ts0, []) \<in> set (Remove ?inp)"
    from step [OF Remove_def good_rules(10) this] show ?thesis unfolding Command_alts by blast
  next
    assume "(ts0, []) \<in> set (ErrorInvalid ?inp)"
    from step [OF ErrorInvalid_def good_rules(11) this] show ?thesis unfolding Command_alts by blast
  qed
qed

lemma named_parse:
  assumes d: "d \<in> set (derivations Command kt toks)" and n: "tag d \<in> set named"
  shows "d \<in> set (parseCommand kt toks)"
proof -
  from derivation_score [OF d] n ErrorInvalid_not_named have "score d = 0" by auto
  moreover have "score x \<le> 0" if "x \<in> set (derivations Command kt toks)" for x
    using derivation_score [OF that] by auto
  ultimately show ?thesis using d by (auto simp: parseCommand_def best_def)
qed

lemma in_resolve_append:
  "rd \<in> set (resolve kt (xs @ ys)) \<longleftrightarrow>
     (\<exists>a b. rd = a @ b \<and> a \<in> set (resolve kt xs) \<and> b \<in> set (resolve kt ys))"
proof (induction xs arbitrary: rd)
  case Nil show ?case by (simp add: resolve_Nil)
next
  case (Cons x xs)
  show ?case
  proof
    assume "rd \<in> set (resolve kt ((x # xs) @ ys))"
    then obtain y r where rd: "rd = y # r" and y: "y \<in> set (readings kt x)"
      and r: "r \<in> set (resolve kt (xs @ ys))" using in_resolve_Cons [of rd kt x "xs @ ys"] by auto
    from r obtain a b where "r = a @ b" "a \<in> set (resolve kt xs)" "b \<in> set (resolve kt ys)"
      unfolding Cons.IH by blast
    with rd y have "rd = (y # a) @ b \<and> y # a \<in> set (resolve kt (x # xs)) \<and> b \<in> set (resolve kt ys)"
      unfolding in_resolve_Cons by simp
    then show "\<exists>a b. rd = a @ b \<and> a \<in> set (resolve kt (x # xs)) \<and> b \<in> set (resolve kt ys)"
      by blast
  next
    assume "\<exists>a b. rd = a @ b \<and> a \<in> set (resolve kt (x # xs)) \<and> b \<in> set (resolve kt ys)"
    then obtain a b where rd: "rd = a @ b" and a: "a \<in> set (resolve kt (x # xs))"
      and b: "b \<in> set (resolve kt ys)" by blast
    from a obtain y a' where "a = y # a'" "y \<in> set (readings kt x)" "a' \<in> set (resolve kt xs)"
      unfolding in_resolve_Cons by blast
    with rd b have "rd = y # (a' @ b) \<and> y \<in> set (readings kt x) \<and> a' @ b \<in> set (resolve kt (xs @ ys))"
      unfolding Cons.IH by auto
    then show "rd \<in> set (resolve kt ((x # xs) @ ys))"
      using in_resolve_Cons [of rd kt x "xs @ ys"] by auto
  qed
qed

lemma length_resolve: "rd \<in> set (resolve kt toks) \<Longrightarrow> length rd = length toks"
  unfolding resolve_def by (drule in_set_product_lists_length) simp

lemma keyword_reading:
  assumes "kind t = Text" and "x \<in> set (readings kt t)" and "kind x = Keyword r"
    and "kind t' = Text" and "raw t' = raw t"
  shows "retag (Keyword r) t' \<in> set (readings kt t')"
  using assms by (auto simp: readings_def retag_def split: option.splits)

lemma keyword_run_parse:
  assumes t: "kind t = Text" and t': "kind t' = Text" "raw t' = raw t"
    and rd: "rd \<in> set (resolve kt (pre @ t # post))" and kr: "kind (rd ! length pre) = Keyword r"
    and e: "e \<in> set (complete Command rd)" and ne: "tag e \<in> set named"
  shows "\<exists>e' \<in> set (parseCommand kt (pre @ t # t' # post)). tag e' = tag e"
proof -
  from rd obtain a c where rda: "rd = a @ c" and a: "a \<in> set (resolve kt pre)"
    and c: "c \<in> set (resolve kt (t # post))" unfolding in_resolve_append by blast
  from c obtain x b where cx: "c = x # b" and x: "x \<in> set (readings kt t)"
    and b: "b \<in> set (resolve kt post)" unfolding in_resolve_Cons by blast
  from length_resolve [OF a] rda cx have "rd ! length pre = x"
    by (metis nth_append_length)
  with kr have kx: "kind x = Keyword r" by simp
  let ?x' = "retag (Keyword r) t'"
  have x': "?x' \<in> set (readings kt t')" using keyword_reading [OF t x kx t'] .
  have kx': "kind ?x' = Keyword r" by (simp add: retag_def)
  from x' b have "?x' # b \<in> set (resolve kt (t' # post))" unfolding in_resolve_Cons by simp
  with x have "x # ?x' # b \<in> set (resolve kt (t # t' # post))" unfolding in_resolve_Cons by simp
  with a have rd': "a @ x # ?x' # b \<in> set (resolve kt (pre @ t # t' # post))"
    unfolding in_resolve_append by blast
  from e rda cx have "e \<in> set (complete Command (a @ x # b))" by simp
  from Command_pump [OF kx kx' this] obtain e' where
    e': "e' \<in> set (complete Command (a @ x # ?x' # b))" and te: "tag e' = tag e" by blast
  from e' rd' have "e' \<in> set (derivations Command kt (pre @ t # t' # post))"
    unfolding in_derivations by blast
  from named_parse [OF this] te ne show ?thesis by auto
qed

lemma clear_clear:
  "parseProgram en (ascii ''clear clear'') =
     [Node ''Program'' 0 11 [Node ''Command'' 0 11 [Node ''Clear'' 0 11
            [Node ''clear'' 0 5 [], Node ''clear'' 6 11 []]]]]"
  apply (simp add: parseProgram_def lex_eval)
  apply (simp add: skip_def derivations_def resolve_defs)
  apply (simp add: rule_defs comb_defs cong: map_weak_cong filter_weak_cong)
  apply (simp add: best_def dynamicPrecedence_def)
  done

lemma repeated_keywords:
  "parseProgram en (ascii ''x is is scores at at random random'') =
     [Node ''Program'' 0 34 [Node ''Command'' 0 34 [Node ''Assign'' 0 34
            [Node ''Text'' 0 1 [], Node ''is'' 2 4 [], Node ''is'' 5 7 [],
             Node ''ListAccess'' 8 34
               [Node ''Text'' 8 14 [], Node ''at'' 15 17 [], Node ''at'' 18 20 [],
                Node ''random'' 21 27 [], Node ''random'' 28 34 []]]]]]"
  apply (simp add: parseProgram_def lex_eval)
  apply (simp add: skip_def derivations_def resolve_defs)
  apply (simp add: rule_defs comb_defs cong: map_weak_cong filter_weak_cong)
  apply (simp add: best_def dynamicPrecedence_def)
  done

text \<open>
  Claim C9. Every keyword position of every command shape takes a run of one or more
  tokens of its keyword. On resolved tokens: when a statement with a keyword token \<open>k\<close>
  parses as a command, the statement with a further token of the same keyword right
  after \<open>k\<close> parses as a command of the same tag. On a statement as lexed: when some
  reading of it takes the token \<open>t\<close> as a keyword and parses as a named shape, the
  statement with \<open>t\<close> written twice has a parse of that tag among those the parser
  returns. With the English keywords \<open>clear clear\<close> is a single \<open>Clear\<close>, and
  \<open>x is is scores at at random random\<close> is the \<open>Assign\<close> of a \<open>ListAccess\<close>.
\<close>

theorem keyword_runs:
  "(kind k = Keyword r \<and> kind k' = Keyword r \<and> d \<in> set (complete Command (ws1 @ k # ws2)) \<longrightarrow>
      (\<exists>d' \<in> set (complete Command (ws1 @ k # k' # ws2)). tag d' = tag d)) \<and>
   (kind t = Text \<and> kind t' = Text \<and> raw t' = raw t \<and>
    rd \<in> set (resolve kt (pre @ t # post)) \<and> kind (rd ! length pre) = Keyword r \<and>
    e \<in> set (complete Command rd) \<and> tag e \<in> set named \<longrightarrow>
      (\<exists>e' \<in> set (parseCommand kt (pre @ t # t' # post)). tag e' = tag e)) \<and>
   parseProgram en (ascii ''clear clear'') =
     [Node ''Program'' 0 11 [Node ''Command'' 0 11 [Node ''Clear'' 0 11
            [Node ''clear'' 0 5 [], Node ''clear'' 6 11 []]]]] \<and>
   parseProgram en (ascii ''x is is scores at at random random'') =
     [Node ''Program'' 0 34 [Node ''Command'' 0 34 [Node ''Assign'' 0 34
            [Node ''Text'' 0 1 [], Node ''is'' 2 4 [], Node ''is'' 5 7 [],
             Node ''ListAccess'' 8 34
               [Node ''Text'' 8 14 [], Node ''at'' 15 17 [], Node ''at'' 18 20 [],
                Node ''random'' 21 27 [], Node ''random'' 28 34 []]]]]]"
  using Command_pump keyword_run_parse clear_clear repeated_keywords
  by (intro conjI impI; (elim conjE)?; blast)

theorem keyword_runs_witness:
  "Node ''Command'' 0 5 [Node ''Clear'' 0 5 [Node ''clear'' 0 5 []]]
     \<in> set (complete Command [Token (Keyword ''clear'') 0 5 (ascii ''clear'')]) \<and>
   (\<exists>d' \<in> set (complete Command [Token (Keyword ''clear'') 0 5 (ascii ''clear''),
                                  Token (Keyword ''clear'') 6 11 (ascii ''clear'')]).
      tag d' = ''Clear'') \<and>
   [Token (Keyword ''clear'') 0 5 (ascii ''clear'')]
     \<in> set (resolve en ([] @ Token Text 0 5 (ascii ''clear'') # [])) \<and>
   (\<exists>e' \<in> set (parseCommand en [Token Text 0 5 (ascii ''clear''), Token Text 6 11 (ascii ''clear'')]).
      tag e' = ''Clear'')"
proof -
  let ?k = "Token (Keyword ''clear'') 0 5 (ascii ''clear'')"
  let ?k' = "Token (Keyword ''clear'') 6 11 (ascii ''clear'')"
  let ?t = "Token Text 0 5 (ascii ''clear'')"
  let ?t' = "Token Text 6 11 (ascii ''clear'')"
  let ?d = "Node ''Command'' 0 5 [Node ''Clear'' 0 5 [Node ''clear'' 0 5 []]]"
  have c: "complete Command [?k] = [?d]"
    by (simp add: rule_defs comb_defs cong: map_weak_cong filter_weak_cong)
  have r: "resolve en [?t] = [[?k], [?t]]"
    by (simp add: resolve_defs)
  have tg: "tag ?d = ''Clear''" "''Clear'' \<in> set named"
    by (simp_all add: tag_def named_def)
  note K = keyword_runs [of ?k "''clear''" ?k' ?d "[]" "[]" ?t ?t' "[?k]" en "[]" "[]" ?d]
  from K c tg have 1: "\<exists>d' \<in> set (complete Command [?k, ?k']). tag d' = ''Clear''" by simp
  from K c r tg have 2: "\<exists>e' \<in> set (parseCommand en [?t, ?t']). tag e' = ''Clear''" by simp
  from c r 1 2 show ?thesis by simp
qed

end
